theory Spec2Isabelle
  imports Main "HOL-Library.Sublist"
begin

section \<open>OpenSeadragon image loader: embedding of \<open>src/imageloader.js\<close>\<close>

text \<open>
  The file defines \<open>ImageJob\<close> (one download, with \<open>start\<close> and \<open>finish\<close>),
  \<open>ImageLoader\<close> (\<open>addJob\<close>, \<open>clear\<close>) and the private function \<open>completeJob\<close>.
  Job objects are mutable and shared between the loader's queue, the timer and the
  transport closures, so they live in a store (\<open>jobs\<close>, indexed by creation order) and
  every operation passes the whole loader state. What the code shows to the outside
  (the caller's callback, the abort hook, the raised event, the console, an exception
  that escapes a handler) is appended to \<open>trace\<close>.

  Inputs are taken well typed: \<open>src\<close> is a string, \<open>multiServers\<close> an array of strings,
  \<open>tiledImage.viewer\<close>, the hub object and the caller's \<open>callback\<close> exist where the code
  dereferences them. The timeout is an integer number of milliseconds; how
  JavaScript rounds and prints integers beyond \<open>2^53\<close> is not modelled for it. A tile
  coordinate is what \<open>parseInt\<close> returns, a double, and is modelled as such. Strings
  are lists of 8-bit characters.
\<close>

subsection \<open>The string primitives \<open>start\<close> uses\<close>

text \<open>\<open>s.indexOf(pat)\<close>: the first position where \<open>pat\<close> occurs, or \<open>-1\<close>.\<close>

fun indexOf_from :: "nat \<Rightarrow> string \<Rightarrow> string \<Rightarrow> int" where
  "indexOf_from n pat [] = (if pat = [] then int n else - 1)"
| "indexOf_from n pat (c # cs) =
     (if take (length pat) (c # cs) = pat then int n else indexOf_from (Suc n) pat cs)"

definition indexOf :: "string \<Rightarrow> string \<Rightarrow> int" where
  "indexOf s pat = indexOf_from 0 pat s"

text \<open>
  \<open>s.split(sep)\<close> for a non-empty separator string: the pieces between the
  occurrences of \<open>sep\<close>, scanned from the left; there is always at least one piece.
  \<open>acc\<close> holds the current piece reversed.
\<close>

function split_from :: "string \<Rightarrow> string \<Rightarrow> string \<Rightarrow> string list" where
  "split_from sep acc [] = [rev acc]"
| "split_from sep acc (c # cs) =
     (if sep \<noteq> [] \<and> take (length sep) (c # cs) = sep
      then rev acc # split_from sep [] (drop (length sep) (c # cs))
      else split_from sep (c # acc) cs)"
  by pat_completeness auto
termination
  by (relation "measure (\<lambda>(sep, acc, s). length s)") auto

definition split :: "string \<Rightarrow> string \<Rightarrow> string list" where
  "split s sep = split_from sep [] s"

text \<open>
  \<open>xs[k]\<close> on an array of strings, as an operand of \<open>+\<close> or an argument of
  \<open>parseInt\<close>: an index out of range reads \<open>undefined\<close>, which both turn into the
  string \<open>undefined\<close>.
\<close>

definition at_str :: "string list \<Rightarrow> nat \<Rightarrow> string" where
  "at_str xs k = (if k < length xs then xs ! k else ''undefined'')"

text \<open>
  The value of \<open>parseInt\<close>, a double: an integer, \<open>NaN\<close> or an infinity. A double
  that is an integer is kept as that integer; the sign of a zero is dropped
  (\<open>-0 === 0\<close> holds).
\<close>

datatype js_number = NaN | Number int | PosInfinity | NegInfinity

text \<open>
  The double nearest to an integer. \<open>bit_length n\<close> is the number of binary digits
  of a positive \<open>n\<close>. A double keeps \<open>53\<close> of them: \<open>round53\<close> cuts off the \<open>e\<close> lowest
  digits of a longer \<open>n\<close> and rounds to the nearest multiple of \<open>2^e\<close>, a tie going to
  the even quotient. A rounded magnitude of more than \<open>1024\<close> binary digits, that is
  of \<open>2^1024\<close> or more, is beyond the doubles and gives an infinity.
\<close>

function bit_length :: "int \<Rightarrow> nat" where
  "bit_length n = (if n \<le> 0 then 0 else Suc (bit_length (n div 2)))"
  by pat_completeness auto
termination
  by (relation "measure nat") auto

declare bit_length.simps [simp del]

definition round53 :: "int \<Rightarrow> int" where
  "round53 n =
     (let e = bit_length n - 53;
          q = n div 2 ^ e;
          r = n mod 2 ^ e
      in (if 2 ^ e < 2 * r \<or> (2 * r = 2 ^ e \<and> odd q) then q + 1 else q) * 2 ^ e)"

definition nearest_double :: "int \<Rightarrow> js_number" where
  "nearest_double i =
     (let v = round53 \<bar>i\<bar>
      in if 1024 < bit_length v then (if i < 0 then NegInfinity else PosInfinity)
         else Number (if i < 0 then - v else v))"

text \<open>
  \<open>parseInt(s, 10)\<close>: leading white space is skipped, one sign is read, then the
  longest run of decimal digits; \<open>leading_integer\<close> is the integer they spell. With no
  digit the result is \<open>NaN\<close>, otherwise the double nearest to that integer. (The
  language lets an engine read the digits after the twentieth as zeros; an engine
  that reads them all and rounds once, as V8 does, is modelled.)
\<close>

definition is_space :: "char \<Rightarrow> bool" where
  "is_space c = (c \<in> set [CHR 0x09, CHR 0x0A, CHR 0x0B, CHR 0x0C, CHR 0x0D, CHR 0x20, CHR 0xA0])"

definition is_digit :: "char \<Rightarrow> bool" where
  "is_digit c = (c \<in> set ''0123456789'')"

definition digit_val :: "char \<Rightarrow> nat" where
  "digit_val c = length (takeWhile (\<lambda>d. d \<noteq> c) ''0123456789'')"

definition decimal :: "string \<Rightarrow> int" where
  "decimal ds = foldl (\<lambda>a c. 10 * a + int (digit_val c)) 0 ds"

definition leading_integer :: "string \<Rightarrow> int option" where
  "leading_integer s =
     (let t = dropWhile is_space s;
          neg = (t \<noteq> [] \<and> hd t = CHR ''-'');
          u = (if t \<noteq> [] \<and> (hd t = CHR ''-'' \<or> hd t = CHR ''+'') then tl t else t);
          ds = takeWhile is_digit u
      in if ds = [] then None
         else Some (if neg then - decimal ds else decimal ds))"

definition parseInt :: "string \<Rightarrow> js_number" where
  "parseInt s = (case leading_integer s of None \<Rightarrow> NaN | Some i \<Rightarrow> nearest_double i)"

text \<open>
  \<open>a % 2 === 0\<close>: the remainder of JavaScript takes the sign of the dividend; the
  remainder of \<open>NaN\<close> or of an infinity is \<open>NaN\<close>, which is not \<open>0\<close>.
\<close>

definition js_rem :: "js_number \<Rightarrow> int \<Rightarrow> js_number" where
  "js_rem x b =
     (case x of
        Number a \<Rightarrow> if b = 0 then NaN else Number (sgn a * (\<bar>a\<bar> mod \<bar>b\<bar>))
      | _ \<Rightarrow> NaN)"

definition rem2_is_0 :: "js_number \<Rightarrow> bool" where
  "rem2_is_0 x = (js_rem x 2 = Number 0)"

text \<open>A number in a string concatenation: its decimal digits, with a sign.\<close>

fun string_of_nat :: "nat \<Rightarrow> string" where
  "string_of_nat n =
     (if n < 10 then [''0123456789'' ! n]
      else string_of_nat (n div 10) @ [''0123456789'' ! (n mod 10)])"

definition string_of_int :: "int \<Rightarrow> string" where
  "string_of_int i = (if i < 0 then CHR ''-'' # string_of_nat (nat (- i)) else string_of_nat (nat i))"

subsection \<open>Data\<close>

type_synonym job_ref = nat

datatype js_error = TypeError

text \<open>
  The \<open>Image\<close> element of a job: its \<open>src\<close> (unset until a branch of \<open>start\<close> or a
  transport handler assigns it), its \<open>crossOrigin\<close>, and whether the three handlers
  \<open>onload\<close>, \<open>onerror\<close>, \<open>onabort\<close> are installed (\<open>start\<close> installs them together,
  \<open>finish\<close> sets them to \<open>null\<close> together).
\<close>

record image_elem =
  img_src :: "string option"
  crossOrigin :: "string option"
  handlers :: bool

text \<open>
  The value of a job's \<open>abort\<close> property: \<open>undefined\<close>, the caller's function, or the
  wrapper the AJAX branch of \<open>start\<close> installs around the value it found.
\<close>

datatype abort_fn = NoAbort | UserAbort | AjaxAbort abort_fn

text \<open>The asynchronous operation a started job is waiting for, if any.\<close>

datatype pending_op = HubStart | GetTile | Xhr

text \<open>
  The properties \<open>addJob\<close> reads from its \<open>options\<close> and copies into the job. The hub is
  \<open>True\<close> when an object is given; \<open>crossOriginPolicy = None\<close> is the value \<open>false\<close>.
  \<open>tiledImage\<close>, \<open>ajaxHeaders\<close> and \<open>ajaxWithCredentials\<close> are passed through to the
  collaborators and decide nothing here.
\<close>

record job_fields =
  src :: string
  loadWithSignalR :: bool
  signalRHub :: bool
  loadWithAjax :: bool
  loadWithMultiServers :: bool
  multiServers :: "string list"
  crossOriginPolicy :: "string option"

text \<open>
  A submission: the fields above, whether \<open>options.abort\<close> is a function, and a
  \<open>timeout\<close> property the caller may set on the options object (\<open>addJob\<close> never
  reads it).
\<close>

record job_options = job_fields +
  abort_opt :: bool
  timeout_opt :: "int option"

text \<open>
  An \<open>ImageJob\<close>. \<open>timer_delay\<close>, \<open>timer_armed\<close> and \<open>pending\<close> are the state of the
  runtime, not properties of the object: the delay \<open>setTimeout\<close> was called with,
  whether the timer of \<open>jobId\<close> is still to fire, and which transport operation is
  outstanding. \<open>request\<close> is \<open>True\<close> once \<open>this.request\<close> is assigned.
\<close>

record image_job = job_fields +
  abort :: abort_fn
  timeout :: int
  jobId :: "nat option"
  image :: "image_elem option"
  errorMsg :: "string option"
  request :: bool
  timer_delay :: "int option"
  timer_armed :: bool
  pending :: "pending_op option"

text \<open>What the outside observes, in order.\<close>

datatype obs =
    TileLoadStart job_ref string
  | Callback job_ref "image_elem option" "string option" bool
  | AbortHook job_ref
  | RequestAbort job_ref
  | ConsoleError string
  | Uncaught js_error

text \<open>
  The \<open>ImageLoader\<close> with the store of the jobs it created, the state of the shared
  SignalR connection, and the trace.
\<close>

record loader =
  jobLimit :: int
  loaderTimeout :: int
  jobQueue :: "job_ref list"
  jobsInProgress :: int
  jobs :: "image_job list"
  hubConnected :: bool
  trace :: "obs list"

subsection \<open>\<open>ImageJob\<close>\<close>

text \<open>
  The constructor: \<open>$.extend(true, this, {timeout: ..., jobId: null}, options)\<close> and
  \<open>this.image = null\<close>; \<open>errorMsg\<close> is \<open>null\<close> on the prototype. \<open>addJob\<close> passes
  \<open>signalRHub\<close> only with \<open>loadWithSignalR\<close>, and the loader's \<open>timeout\<close>.
\<close>

definition ImageJob :: "job_options \<Rightarrow> int \<Rightarrow> image_job" where
  "ImageJob options t =
     \<lparr> src = src options,
       loadWithSignalR = loadWithSignalR options,
       signalRHub = (if loadWithSignalR options then signalRHub options else False),
       loadWithAjax = loadWithAjax options,
       loadWithMultiServers = loadWithMultiServers options,
       multiServers = multiServers options,
       crossOriginPolicy = crossOriginPolicy options,
       abort = (if abort_opt options then UserAbort else NoAbort),
       timeout = t,
       jobId = None,
       image = None,
       errorMsg = None,
       request = False,
       timer_delay = None,
       timer_armed = False,
       pending = None \<rparr>"

text \<open>
  The multi-server branch: the URL assigned to \<open>image.src\<close>. The separator of the
  second \<open>split\<close> is the two characters backslash and dot, as the source writes it.
\<close>

definition multiServerSrc :: "string list \<Rightarrow> string \<Rightarrow> string" where
  "multiServerSrc servers s =
     (if indexOf s ''labels_'' \<noteq> - 1 \<or> indexOf s ''predictions_'' \<noteq> - 1 then s
      else
        let coords = split (hd (split (last (split s ''/'')) [CHR 0x5C, CHR ''.''])) ''_'';
            col = parseInt (at_str coords 0);
            row = parseInt (at_str coords 1)
        in if rem2_is_0 col
           then (if rem2_is_0 row then at_str servers 0 @ s else at_str servers 1 @ s)
           else (if rem2_is_0 row then at_str servers 2 @ s else at_str servers 3 @ s))"

text \<open>
  \<open>ImageJob.start\<close>, on the job alone (the raised event is added by \<open>startJob\<close>).
  \<open>tid\<close> is the handle \<open>setTimeout\<close> returns, \<open>connected\<close> whether the hub's
  connection is in state \<open>connected\<close>.
\<close>

definition start :: "nat \<Rightarrow> bool \<Rightarrow> image_job \<Rightarrow> image_job" where
  "start tid connected j =
     (let j1 = j\<lparr> image := Some \<lparr> img_src = None, crossOrigin = None, handlers = True \<rparr>,
                  jobId := Some tid,
                  timer_delay := Some (timeout j),
                  timer_armed := True \<rparr>
      in if loadWithSignalR j1 \<and> signalRHub j1 then
           (if \<not> connected then j1\<lparr> pending := Some HubStart \<rparr>
            else j1\<lparr> pending := Some GetTile \<rparr>)
         else if loadWithAjax j1 then
           j1\<lparr> request := True, pending := Some Xhr, abort := AjaxAbort (abort j) \<rparr>
         else if loadWithMultiServers j1 then
           j1\<lparr> image := Some \<lparr> img_src = Some (multiServerSrc (multiServers j1) (src j1)),
                               crossOrigin = crossOriginPolicy j1, handlers = True \<rparr> \<rparr>
         else
           j1\<lparr> image := Some \<lparr> img_src = Some (src j1),
                               crossOrigin = crossOriginPolicy j1, handlers = True \<rparr> \<rparr>)"

text \<open>
  \<open>ImageJob.finish\<close> up to its last line: \<open>this.image.onload = ... = null\<close> throws when
  \<open>image\<close> is \<open>null\<close>; \<open>clearTimeout\<close> runs when \<open>jobId\<close> is truthy.
\<close>

definition finish :: "bool \<Rightarrow> image_job \<Rightarrow> js_error + image_job" where
  "finish successful j =
     (case image j of
        None \<Rightarrow> Inl TypeError
      | Some i \<Rightarrow>
          let j1 = j\<lparr> image := (if successful then Some (i\<lparr> handlers := False \<rparr>) else None) \<rparr>
          in Inr (if jobId j1 \<noteq> None \<and> jobId j1 \<noteq> Some 0 then j1\<lparr> timer_armed := False \<rparr> else j1))"

text \<open>What calling a job's \<open>abort\<close> value shows, when it is a function.\<close>

fun call_abort :: "job_ref \<Rightarrow> abort_fn \<Rightarrow> obs list" where
  "call_abort r NoAbort = []"
| "call_abort r UserAbort = [AbortHook r]"
| "call_abort r (AjaxAbort f) = RequestAbort r # call_abort r f"

subsection \<open>\<open>ImageLoader\<close> and \<open>completeJob\<close>\<close>

text \<open>
  The constructor, with \<open>jobLimit\<close> and \<open>timeout\<close> already resolved against
  \<open>$.DEFAULT_SETTINGS\<close> (which is not part of the file).
\<close>

definition ImageLoader :: "int \<Rightarrow> int \<Rightarrow> loader" where
  "ImageLoader limit t =
     \<lparr> jobLimit = limit, loaderTimeout = t, jobQueue = [], jobsInProgress = 0,
       jobs = [], hubConnected = False, trace = [] \<rparr>"

text \<open>\<open>job.start()\<close> on the job stored at \<open>r\<close>; the timer handle is \<open>r + 1\<close>.\<close>

definition startJob :: "job_ref \<Rightarrow> loader \<Rightarrow> loader" where
  "startJob r w =
     w\<lparr> trace := trace w @ [TileLoadStart r (src (jobs w ! r))],
        jobs := (jobs w)[r := start (Suc r) (hubConnected w) (jobs w ! r)] \<rparr>"

definition has_capacity :: "loader \<Rightarrow> bool" where
  "has_capacity w = (jobLimit w = 0 \<or> jobsInProgress w < jobLimit w)"

definition addJob :: "job_options \<Rightarrow> loader \<Rightarrow> loader" where
  "addJob options w =
     (let r = length (jobs w);
          w1 = w\<lparr> jobs := jobs w @ [ImageJob options (loaderTimeout w)] \<rparr>
      in if has_capacity w1
         then (let w2 = startJob r w1 in w2\<lparr> jobsInProgress := jobsInProgress w2 + 1 \<rparr>)
         else w1\<lparr> jobQueue := jobQueue w1 @ [r] \<rparr>)"

definition clear :: "loader \<Rightarrow> loader" where
  "clear w =
     w\<lparr> trace := trace w @ concat (map (\<lambda>r. call_abort r (abort (jobs w ! r))) (jobQueue w)),
        jobQueue := [] \<rparr>"

definition completeJob :: "job_ref \<Rightarrow> loader \<Rightarrow> loader" where
  "completeJob r w =
     (let w1 = w\<lparr> jobsInProgress := jobsInProgress w - 1 \<rparr>;
          w2 = (if has_capacity w1 \<and> jobQueue w1 \<noteq> []
                then (let nextJob = hd (jobQueue w1);
                          w' = startJob nextJob (w1\<lparr> jobQueue := tl (jobQueue w1) \<rparr>)
                      in w'\<lparr> jobsInProgress := jobsInProgress w' + 1 \<rparr>)
                else w1);
          j = jobs w2 ! r
      in w2\<lparr> trace := trace w2 @ [Callback r (image j) (errorMsg j) (request j)] \<rparr>)"

subsection \<open>The handlers \<open>start\<close> registers\<close>

text \<open>
  A handler returns the state it leaves and the exception that escaped it, if any.
  \<open>finishJob\<close> is \<open>self.finish(...)\<close> with its last line \<open>this.callback(this)\<close>, which
  is \<open>completeJob\<close>.
\<close>

definition set_job :: "job_ref \<Rightarrow> image_job \<Rightarrow> loader \<Rightarrow> loader" where
  "set_job r j w = w\<lparr> jobs := (jobs w)[r := j] \<rparr>"

definition finishJob :: "job_ref \<Rightarrow> bool \<Rightarrow> loader \<Rightarrow> loader \<times> js_error option" where
  "finishJob r successful w =
     (case finish successful (jobs w ! r) of
        Inl e \<Rightarrow> (w, Some e)
      | Inr j \<Rightarrow> (completeJob r (set_job r j w), None))"

definition fail_with :: "job_ref \<Rightarrow> string \<Rightarrow> loader \<Rightarrow> loader \<times> js_error option" where
  "fail_with r msg w = finishJob r False (set_job r ((jobs w ! r)\<lparr> errorMsg := Some msg \<rparr>) w)"

definition set_image_src :: "job_ref \<Rightarrow> string \<Rightarrow> loader \<Rightarrow> loader \<times> js_error option" where
  "set_image_src r url w =
     (case image (jobs w ! r) of
        None \<Rightarrow> (w, Some TypeError)
      | Some i \<Rightarrow> (set_job r ((jobs w ! r)\<lparr> image := Some (i\<lparr> img_src := Some url \<rparr>) \<rparr>) w, None))"

definition onload :: "job_ref \<Rightarrow> loader \<Rightarrow> loader \<times> js_error option" where
  "onload r w = finishJob r True w"

definition onerror :: "job_ref \<Rightarrow> loader \<Rightarrow> loader \<times> js_error option" where
  "onerror r w = fail_with r ''Image load aborted'' w"

definition onTimeout :: "job_ref \<Rightarrow> loader \<Rightarrow> loader \<times> js_error option" where
  "onTimeout r w =
     fail_with r (''Image load exceeded timeout ('' @ string_of_int (timeout (jobs w ! r)) @ '' ms)'') w"

definition getTileDone :: "job_ref \<Rightarrow> (string \<times> string) option \<Rightarrow> loader \<Rightarrow> loader \<times> js_error option" where
  "getTileDone r data w =
     (case data of
        Some (mime, base64) \<Rightarrow> set_image_src r (''data:'' @ mime @ '';base64,'' @ base64) w
      | None \<Rightarrow> fail_with r ''Image load aborted - Empty image response.'' w)"

definition getTileFail :: "job_ref \<Rightarrow> string \<Rightarrow> loader \<Rightarrow> loader \<times> js_error option" where
  "getTileFail r error w = fail_with r (''Image load aborted - SignalR error: '' @ error) w"

definition hubStartDone :: "job_ref \<Rightarrow> loader \<Rightarrow> loader \<times> js_error option" where
  "hubStartDone r w = (set_job r ((jobs w ! r)\<lparr> pending := Some GetTile \<rparr>) w, None)"

definition hubStartFail :: "job_ref \<Rightarrow> loader \<Rightarrow> loader \<times> js_error option" where
  "hubStartFail r w = (w\<lparr> trace := trace w @ [ConsoleError ''SignalR could not Connect!''] \<rparr>, None)"

text \<open>
  The AJAX \<open>success\<close> handler. \<open>blob\<close> is the size of the blob built from the response,
  or \<open>None\<close> when neither \<open>Blob\<close> nor a \<open>BlobBuilder\<close> produced one (\<open>blb\<close> stays
  \<open>undefined\<close> and \<open>blb.size\<close> throws); \<open>url\<close> is what \<open>createObjectURL\<close> returns. After
  \<open>self.finish(false)\<close> the handler goes on to assign \<open>self.image.src\<close>.
\<close>

definition xhrSuccess :: "job_ref \<Rightarrow> nat option \<Rightarrow> string \<Rightarrow> loader \<Rightarrow> loader \<times> js_error option" where
  "xhrSuccess r blob url w =
     (case blob of
        None \<Rightarrow> (w, Some TypeError)
      | Some n \<Rightarrow>
          let (w1, e) = (if n = 0 then fail_with r ''Empty image response.'' w else (w, None))
          in if e \<noteq> None then (w1, e) else set_image_src r url w1)"

definition xhrError :: "job_ref \<Rightarrow> loader \<Rightarrow> loader \<times> js_error option" where
  "xhrError r w = fail_with r ''Image load aborted - XHR error'' w"

subsection \<open>The runtime: which handler runs when\<close>

text \<open>
  Everything that can happen to a loader: a call of \<open>addJob\<close> or \<open>clear\<close>, the hub's
  connection changing state, and the runtime calling one of the handlers of job \<open>r\<close>.
  The runtime calls a handler only when it is due:
  \<^item> the timer function, while the timer is armed (it has not fired and
    \<open>clearTimeout\<close> has not been called on it);
  \<^item> \<open>onload\<close> and \<open>onerror\<close>/\<open>onabort\<close>, while they are installed on an image
    whose \<open>src\<close> has been assigned (an image without a source loads nothing);
  \<^item> the handlers of a deferred (\<open>hub.start()\<close>, \<open>getTile\<close>) or of the AJAX request,
    once, while that operation is outstanding.
  An event that is not due leaves the state as it is. An exception that escapes a
  handler is recorded in the trace.
\<close>

datatype event =
    AddJob job_options
  | Clear
  | HubState bool
  | TimerFires job_ref
  | ImageLoad job_ref
  | ImageError job_ref
  | HubStartDone job_ref
  | HubStartFail job_ref
  | GetTileDone job_ref "(string \<times> string) option"
  | GetTileFail job_ref string
  | XhrSuccess job_ref "nat option" string
  | XhrError job_ref

definition image_due :: "image_job \<Rightarrow> bool" where
  "image_due j = (case image j of None \<Rightarrow> False | Some i \<Rightarrow> handlers i \<and> img_src i \<noteq> None)"

definition uncaught :: "loader \<times> js_error option \<Rightarrow> loader" where
  "uncaught res = (case snd res of None \<Rightarrow> fst res
                   | Some e \<Rightarrow> (fst res)\<lparr> trace := trace (fst res) @ [Uncaught e] \<rparr>)"

definition consume :: "job_ref \<Rightarrow> loader \<Rightarrow> loader" where
  "consume r w = set_job r ((jobs w ! r)\<lparr> pending := None \<rparr>) w"

definition disarm :: "job_ref \<Rightarrow> loader \<Rightarrow> loader" where
  "disarm r w = set_job r ((jobs w ! r)\<lparr> timer_armed := False \<rparr>) w"

definition awaiting :: "loader \<Rightarrow> job_ref \<Rightarrow> pending_op \<Rightarrow> bool" where
  "awaiting w r p = (r < length (jobs w) \<and> pending (jobs w ! r) = Some p)"

fun step :: "loader \<Rightarrow> event \<Rightarrow> loader" where
  "step w (AddJob options) = addJob options w"
| "step w Clear = clear w"
| "step w (HubState b) = w\<lparr> hubConnected := b \<rparr>"
| "step w (TimerFires r) =
     (if r < length (jobs w) \<and> timer_armed (jobs w ! r)
      then uncaught (onTimeout r (disarm r w)) else w)"
| "step w (ImageLoad r) =
     (if r < length (jobs w) \<and> image_due (jobs w ! r) then uncaught (onload r w) else w)"
| "step w (ImageError r) =
     (if r < length (jobs w) \<and> image_due (jobs w ! r) then uncaught (onerror r w) else w)"
| "step w (HubStartDone r) =
     (if awaiting w r HubStart then uncaught (hubStartDone r (consume r w)) else w)"
| "step w (HubStartFail r) =
     (if awaiting w r HubStart then uncaught (hubStartFail r (consume r w)) else w)"
| "step w (GetTileDone r data) =
     (if awaiting w r GetTile then uncaught (getTileDone r data (consume r w)) else w)"
| "step w (GetTileFail r error) =
     (if awaiting w r GetTile then uncaught (getTileFail r error (consume r w)) else w)"
| "step w (XhrSuccess r blob url) =
     (if awaiting w r Xhr then uncaught (xhrSuccess r blob url (consume r w)) else w)"
| "step w (XhrError r) =
     (if awaiting w r Xhr then uncaught (xhrError r (consume r w)) else w)"

definition run :: "loader \<Rightarrow> event list \<Rightarrow> loader" where
  "run w es = foldl step w es"

subsection \<open>The life of a job, and what the trace says about it\<close>

text \<open>
  A job is \<open>created\<close> until \<open>start\<close> runs on it, \<open>executing\<close> from then until
  \<open>finish\<close> gets through to the callback, and \<open>finished\<close> afterwards. While a job
  executes its timer is armed and its image carries the handlers; the image has a
  \<open>src\<close> only once the transport has nothing more outstanding. A finished job either
  failed (\<open>image\<close> is \<open>null\<close> and \<open>errorMsg\<close> is set) or succeeded (the image is kept
  without handlers, \<open>errorMsg\<close> is still \<open>null\<close>).
\<close>

definition created :: "image_job \<Rightarrow> bool" where
  "created j =
     (jobId j = None \<and> image j = None \<and> \<not> timer_armed j \<and> pending j = None \<and>
      errorMsg j = None \<and> (abort j = NoAbort \<or> abort j = UserAbort))"

definition executing :: "image_job \<Rightarrow> bool" where
  "executing j =
     (timer_armed j \<and> jobId j \<noteq> None \<and> jobId j \<noteq> Some 0 \<and> errorMsg j = None \<and>
      (case image j of None \<Rightarrow> False
       | Some i \<Rightarrow> handlers i \<and> (img_src i = None \<or> pending j = None)))"

definition finished :: "image_job \<Rightarrow> bool" where
  "finished j =
     (\<not> timer_armed j \<and> jobId j \<noteq> None \<and>
      (case image j of None \<Rightarrow> errorMsg j \<noteq> None
       | Some i \<Rightarrow> \<not> handlers i \<and> pending j = None \<and> errorMsg j = None))"

text \<open>The invocations of the caller's callback for job \<open>r\<close>, and the jobs started, in order.\<close>

fun is_callback :: "job_ref \<Rightarrow> obs \<Rightarrow> bool" where
  "is_callback r (Callback r' i e q) = (r' = r)"
| "is_callback r _ = False"

definition callbacks_of :: "job_ref \<Rightarrow> obs list \<Rightarrow> obs list" where
  "callbacks_of r tr = filter (is_callback r) tr"

fun started_ref :: "obs \<Rightarrow> job_ref list" where
  "started_ref (TileLoadStart r s) = [r]"
| "started_ref _ = []"

definition started_refs :: "obs list \<Rightarrow> job_ref list" where
  "started_refs tr = concat (map started_ref tr)"

text \<open>
  A callback reports either a result or an error: exactly one of the image and the
  message is \<open>null\<close>. Observations other than callbacks pass.
\<close>

fun well_reported :: "obs \<Rightarrow> bool" where
  "well_reported (Callback r i e q) = ((i \<noteq> None \<and> e = None) \<or> (i = None \<and> e \<noteq> None))"
| "well_reported _ = True"

text \<open>
  The job a callback or a start is about; the other observations (abort hooks, console
  messages, escaped exceptions) are incidental to the accounting.
\<close>

fun obs_ref :: "obs \<Rightarrow> job_ref option" where
  "obs_ref (TileLoadStart r s) = Some r"
| "obs_ref (Callback r i e q) = Some r"
| "obs_ref _ = None"

definition incidental :: "obs list \<Rightarrow> bool" where
  "incidental ob = list_all (\<lambda>x. obs_ref x = None) ob"

subsection \<open>Example submissions\<close>

definition directRequest :: "string \<Rightarrow> job_options" where
  "directRequest s =
     \<lparr> src = s, loadWithSignalR = False, signalRHub = False, loadWithAjax = False,
       loadWithMultiServers = False, multiServers = [], crossOriginPolicy = None,
       abort_opt = True, timeout_opt = None \<rparr>"

definition ajaxRequest :: "string \<Rightarrow> job_options" where
  "ajaxRequest s = (directRequest s)\<lparr> loadWithAjax := True \<rparr>"

definition signalRRequest :: "string \<Rightarrow> job_options" where
  "signalRRequest s = (directRequest s)\<lparr> loadWithSignalR := True, signalRHub := True \<rparr>"

definition multiServerRequest :: "string list \<Rightarrow> string \<Rightarrow> job_options" where
  "multiServerRequest servers s =
     (directRequest s)\<lparr> loadWithMultiServers := True, multiServers := servers \<rparr>"

subsection \<open>What one event can do to a loader\<close>

text \<open>
  \<open>completeJob\<close> promotes the head of the queue when, after the decrement, there is
  capacity and the queue is not empty.
\<close>

definition promotes :: "loader \<Rightarrow> bool" where
  "promotes w = ((jobLimit w = 0 \<or> jobsInProgress w - 1 < jobLimit w) \<and> jobQueue w \<noteq> [])"

text \<open>The job as \<open>finish\<close> leaves it when the image is not \<open>null\<close> and \<open>jobId\<close> is truthy.\<close>

definition ended :: "bool \<Rightarrow> image_job \<Rightarrow> image_job" where
  "ended successful j =
     j\<lparr> image := (if successful then map_option (\<lambda>i. i\<lparr> handlers := False \<rparr>) (image j) else None),
        timer_armed := False \<rparr>"

text \<open>
  Every handler run has one of two shapes. A \<open>quiet\<close> run rewrites the job of the
  event and adds incidental observations. A \<open>completing\<close> run rewrites the job,
  calls \<open>completeJob\<close> for it and may add incidental observations after the callback.
\<close>

definition quiet :: "job_ref \<Rightarrow> image_job \<Rightarrow> obs list \<Rightarrow> loader \<Rightarrow> loader" where
  "quiet r j' ob w = (set_job r j' w)\<lparr> trace := trace w @ ob \<rparr>"

definition completing :: "job_ref \<Rightarrow> image_job \<Rightarrow> obs list \<Rightarrow> loader \<Rightarrow> loader" where
  "completing r j' ob w =
     (completeJob r (set_job r j' w))\<lparr> trace := trace (completeJob r (set_job r j' w)) @ ob \<rparr>"

definition same_timing :: "image_job \<Rightarrow> image_job \<Rightarrow> bool" where
  "same_timing j j' = (timeout j' = timeout j \<and> timer_delay j' = timer_delay j)"

definition keeps :: "image_job \<Rightarrow> image_job \<Rightarrow> bool" where
  "keeps j j' =
     (((executing j \<and> executing j') \<or> (finished j \<and> finished j')) \<and> same_timing j j')"

definition Quiet :: "job_ref \<Rightarrow> loader \<Rightarrow> loader \<Rightarrow> bool" where
  "Quiet r w w' = (\<exists>j' ob. w' = quiet r j' ob w \<and> incidental ob \<and> keeps (jobs w ! r) j')"

definition Completing :: "job_ref \<Rightarrow> loader \<Rightarrow> loader \<Rightarrow> bool" where
  "Completing r w w' =
     (\<exists>j' ob. w' = completing r j' ob w \<and> incidental ob \<and>
        executing (jobs w ! r) \<and> finished j' \<and> same_timing (jobs w ! r) j')"

text \<open>The job whose handler an event runs.\<close>

fun target :: "event \<Rightarrow> job_ref option" where
  "target (AddJob options) = None"
| "target Clear = None"
| "target (HubState b) = None"
| "target (TimerFires r) = Some r"
| "target (ImageLoad r) = Some r"
| "target (ImageError r) = Some r"
| "target (HubStartDone r) = Some r"
| "target (HubStartFail r) = Some r"
| "target (GetTileDone r d) = Some r"
| "target (GetTileFail r m) = Some r"
| "target (XhrSuccess r b u) = Some r"
| "target (XhrError r) = Some r"

subsection \<open>The invariant of the loader\<close>

text \<open>
  For every job: it is created and was never called back, or it is outside the queue
  and either executes without a callback so far or is finished with exactly one.
\<close>

definition job_inv :: "loader \<Rightarrow> job_ref \<Rightarrow> bool" where
  "job_inv w k =
     ((created (jobs w ! k) \<and> callbacks_of k (trace w) = []) \<or>
      (k \<notin> set (jobQueue w) \<and> executing (jobs w ! k) \<and> callbacks_of k (trace w) = []) \<or>
      (k \<notin> set (jobQueue w) \<and> finished (jobs w ! k) \<and> length (callbacks_of k (trace w)) = 1))"

definition in_range :: "nat \<Rightarrow> obs \<Rightarrow> bool" where
  "in_range n x = (case obs_ref x of None \<Rightarrow> True | Some k \<Rightarrow> k < n)"

text \<open>
  The queue holds distinct created jobs; the trace speaks of existing jobs and every
  callback in it is well reported; the counter is the number of armed timers; the
  jobs started so far, followed by the queue, are in order of submission; and the queue
  is only non-empty while the loader is at capacity.
\<close>

definition Inv :: "loader \<Rightarrow> bool" where
  "Inv w =
     ((\<forall>k < length (jobs w). job_inv w k) \<and>
      (\<forall>k \<in> set (jobQueue w). k < length (jobs w) \<and> created (jobs w ! k)) \<and>
      distinct (jobQueue w) \<and>
      (\<forall>x \<in> set (trace w). well_reported x \<and> in_range (length (jobs w)) x) \<and>
      jobsInProgress w = int (length (filter timer_armed (jobs w))) \<and>
      sorted_wrt (<) (started_refs (trace w) @ jobQueue w) \<and>
      (jobQueue w = [] \<or> \<not> has_capacity w))"

text \<open>Every job carries the loader's timeout, and an armed timer was set with it.\<close>

definition job_timing :: "int \<Rightarrow> image_job \<Rightarrow> bool" where
  "job_timing t j = (timeout j = t \<and> (timer_delay j = Some t \<or> \<not> timer_armed j))"

definition timing_inv :: "loader \<Rightarrow> bool" where
  "timing_inv w = list_all (job_timing (loaderTimeout w)) (jobs w)"

text \<open>A job that \<open>clear\<close> removed from the queue: it exists, was never started, and is not queued.\<close>

definition dropped :: "loader \<Rightarrow> job_ref \<Rightarrow> bool" where
  "dropped w r = (r < length (jobs w) \<and> created (jobs w ! r) \<and> r \<notin> set (jobQueue w))"

subsection \<open>The multi-server rule, read off the strings\<close>

text \<open>
  What \<open>multiServerSrc\<close> computes, without \<open>split\<close> and \<open>indexOf\<close>: the file name is
  what follows the last slash; its stem is what precedes the first occurrence of the
  two characters backslash and dot (for a file name without that pair, all of it);
  the column is read from the stem up to its first underscore and the row from what
  lies between the first and the second underscore (\<open>undefined\<close> when the stem has no
  underscore). A token counts as even when it begins (after white space and a sign)
  with an integer that is even and below \<open>2^53\<close> in absolute value, or that is at least
  \<open>2^53\<close> and below \<open>2^1024 - 2^970\<close> in absolute value: \<open>parseInt\<close> rounds such an
  integer to a double, which is even, and from \<open>2^1024 - 2^970\<close> on it returns an
  infinity. A token that begins with no integer is not even.
\<close>

definition file_name :: "string \<Rightarrow> string" where
  "file_name s = rev (takeWhile (\<lambda>c. c \<noteq> CHR ''/'') (rev s))"

definition stem :: "string \<Rightarrow> string" where
  "stem f = hd (split f [CHR 0x5C, CHR ''.''])"

definition col_token :: "string \<Rightarrow> string" where
  "col_token f = takeWhile (\<lambda>c. c \<noteq> CHR ''_'') f"

definition row_token :: "string \<Rightarrow> string" where
  "row_token f =
     (if CHR ''_'' \<in> set f
      then takeWhile (\<lambda>c. c \<noteq> CHR ''_'') (tl (dropWhile (\<lambda>c. c \<noteq> CHR ''_'') f))
      else ''undefined'')"

definition even_token :: "string \<Rightarrow> bool" where
  "even_token tok =
     (case leading_integer tok of
        None \<Rightarrow> False
      | Some i \<Rightarrow> if \<bar>i\<bar> < 2 ^ 53 then even i else \<bar>i\<bar> < 2 ^ 1024 - 2 ^ 970)"

definition name_index :: "string \<Rightarrow> nat" where
  "name_index f =
     (if even_token (col_token (stem f))
      then (if even_token (row_token (stem f)) then 0 else 1)
      else (if even_token (row_token (stem f)) then 2 else 3))"

definition endpoint_index :: "string \<Rightarrow> nat" where
  "endpoint_index s = name_index (file_name s)"

text \<open>
  The rule in the words of the specification, for comparison: a file name that begins
  with \<open>labels_\<close> or \<open>predictions_\<close> keeps the URL; otherwise the column is the
  second-to-last and the row the third-to-last of the underscore-delimited tokens of
  the file name, and their parities choose the server as in the code.
\<close>

definition from_end :: "string list \<Rightarrow> nat \<Rightarrow> string" where
  "from_end xs k = (if 0 < k \<and> k \<le> length xs then xs ! (length xs - k) else ''undefined'')"

definition claimed_multiServerSrc :: "string list \<Rightarrow> string \<Rightarrow> string" where
  "claimed_multiServerSrc servers s =
     (let name = last (split s ''/'')
      in if take 7 name = ''labels_'' \<or> take 12 name = ''predictions_'' then s
         else
           let tokens = split name ''_'';
               col = parseInt (from_end tokens 2);
               row = parseInt (from_end tokens 3)
           in if rem2_is_0 col
              then (if rem2_is_0 row then at_str servers 0 @ s else at_str servers 1 @ s)
              else (if rem2_is_0 row then at_str servers 2 @ s else at_str servers 3 @ s))"

section \<open>Supporting lemmas\<close>

subsection \<open>The counter never exceeds a positive limit\<close>

lemma set_job_fields [simp]:
  "jobLimit (set_job r j w) = jobLimit w"
  "loaderTimeout (set_job r j w) = loaderTimeout w"
  "jobQueue (set_job r j w) = jobQueue w"
  "jobsInProgress (set_job r j w) = jobsInProgress w"
  "hubConnected (set_job r j w) = hubConnected w"
  "trace (set_job r j w) = trace w"
  "jobs (set_job r j w) = (jobs w)[r := j]"
  by (simp_all add: set_job_def)

lemma has_capacity_set_job [simp]: "has_capacity (set_job r j w) = has_capacity w"
  by (simp add: has_capacity_def)

lemma startJob_fields [simp]:
  "jobLimit (startJob r w) = jobLimit w"
  "loaderTimeout (startJob r w) = loaderTimeout w"
  "jobQueue (startJob r w) = jobQueue w"
  "jobsInProgress (startJob r w) = jobsInProgress w"
  "hubConnected (startJob r w) = hubConnected w"
  "trace (startJob r w) = trace w @ [TileLoadStart r (src (jobs w ! r))]"
  "jobs (startJob r w) = (jobs w)[r := start (Suc r) (hubConnected w) (jobs w ! r)]"
  by (simp_all add: startJob_def)

lemma completeJob_fields:
  "jobLimit (completeJob r w) = jobLimit w"
  "loaderTimeout (completeJob r w) = loaderTimeout w"
  "hubConnected (completeJob r w) = hubConnected w"
  "jobQueue (completeJob r w) = (if promotes w then tl (jobQueue w) else jobQueue w)"
  "jobsInProgress (completeJob r w) = (if promotes w then jobsInProgress w else jobsInProgress w - 1)"
  "jobs (completeJob r w) =
     (if promotes w
      then (jobs w)[hd (jobQueue w) := start (Suc (hd (jobQueue w))) (hubConnected w) (jobs w ! hd (jobQueue w))]
      else jobs w)"
  by (simp_all add: completeJob_def promotes_def has_capacity_def Let_def)

lemma completeJob_trace:
  "trace (completeJob r w) =
     trace w @ (if promotes w then [TileLoadStart (hd (jobQueue w)) (src (jobs w ! hd (jobQueue w)))] else [])
       @ [Callback r (image (jobs (completeJob r w) ! r)) (errorMsg (jobs (completeJob r w) ! r))
            (request (jobs (completeJob r w) ! r))]"
  by (simp add: completeJob_def promotes_def has_capacity_def Let_def)

lemma finishJob_limit [simp]: "jobLimit (fst (finishJob r s w)) = jobLimit w"
  by (simp add: finishJob_def completeJob_fields split: sum.splits)

lemma finishJob_le: "jobsInProgress (fst (finishJob r s w)) \<le> jobsInProgress w"
  by (simp add: finishJob_def completeJob_fields split: sum.splits)

lemma fail_with_limit [simp]: "jobLimit (fst (fail_with r m w)) = jobLimit w"
  by (simp add: fail_with_def)

lemma fail_with_le: "jobsInProgress (fst (fail_with r m w)) \<le> jobsInProgress w"
  using finishJob_le [of r False "set_job r ((jobs w ! r)\<lparr>errorMsg := Some m\<rparr>) w"]
  by (simp add: fail_with_def)

lemma set_image_src_counts [simp]:
  "jobLimit (fst (set_image_src r u w)) = jobLimit w"
  "jobsInProgress (fst (set_image_src r u w)) = jobsInProgress w"
  by (simp_all add: set_image_src_def split: option.splits)

lemma uncaught_counts [simp]:
  "jobLimit (uncaught res) = jobLimit (fst res)"
  "jobsInProgress (uncaught res) = jobsInProgress (fst res)"
  by (simp_all add: uncaught_def split: option.splits)

lemma consume_counts [simp]:
  "jobLimit (consume r w) = jobLimit w" "jobsInProgress (consume r w) = jobsInProgress w"
  by (simp_all add: consume_def)

lemma disarm_counts [simp]:
  "jobLimit (disarm r w) = jobLimit w" "jobsInProgress (disarm r w) = jobsInProgress w"
  by (simp_all add: disarm_def)

lemma xhrSuccess_limit [simp]: "jobLimit (fst (xhrSuccess r b u w)) = jobLimit w"
proof (cases b)
  case None
  then show ?thesis by (simp add: xhrSuccess_def)
next
  case (Some n)
  obtain w1 e where f: "fail_with r ''Empty image response.'' w = (w1, e)"
    by (cases "fail_with r ''Empty image response.'' w")
  have "jobLimit w1 = jobLimit w"
    using fail_with_limit [of r "''Empty image response.''" w] by (simp only: f fst_conv)
  with Some f show ?thesis by (simp add: xhrSuccess_def)
qed

lemma xhrSuccess_le: "jobsInProgress (fst (xhrSuccess r b u w)) \<le> jobsInProgress w"
proof (cases b)
  case None
  then show ?thesis by (simp add: xhrSuccess_def)
next
  case (Some n)
  obtain w1 e where f: "fail_with r ''Empty image response.'' w = (w1, e)"
    by (cases "fail_with r ''Empty image response.'' w")
  have "jobsInProgress w1 \<le> jobsInProgress w"
    using fail_with_le [of r "''Empty image response.''" w] by (simp only: f fst_conv)
  with Some f show ?thesis by (simp add: xhrSuccess_def)
qed

lemma handler_limit [simp]:
  "jobLimit (fst (onTimeout r w)) = jobLimit w"
  "jobLimit (fst (onload r w)) = jobLimit w"
  "jobLimit (fst (onerror r w)) = jobLimit w"
  "jobLimit (fst (hubStartDone r w)) = jobLimit w"
  "jobLimit (fst (hubStartFail r w)) = jobLimit w"
  "jobLimit (fst (getTileDone r d w)) = jobLimit w"
  "jobLimit (fst (getTileFail r m w)) = jobLimit w"
  "jobLimit (fst (xhrError r w)) = jobLimit w"
  by (simp_all add: onTimeout_def onload_def onerror_def hubStartDone_def
        hubStartFail_def getTileDone_def getTileFail_def xhrError_def split: option.splits)

lemma handler_le:
  "jobsInProgress (fst (onTimeout r w)) \<le> jobsInProgress w"
  "jobsInProgress (fst (onload r w)) \<le> jobsInProgress w"
  "jobsInProgress (fst (onerror r w)) \<le> jobsInProgress w"
  "jobsInProgress (fst (hubStartDone r w)) \<le> jobsInProgress w"
  "jobsInProgress (fst (hubStartFail r w)) \<le> jobsInProgress w"
  "jobsInProgress (fst (getTileDone r d w)) \<le> jobsInProgress w"
  "jobsInProgress (fst (getTileFail r m w)) \<le> jobsInProgress w"
  "jobsInProgress (fst (xhrError r w)) \<le> jobsInProgress w"
  by (simp_all add: onTimeout_def onload_def onerror_def hubStartDone_def
        hubStartFail_def getTileDone_def getTileFail_def xhrError_def
        fail_with_le finishJob_le split: option.splits)

lemma addJob_limit [simp]: "jobLimit (addJob opts w) = jobLimit w"
  by (simp add: addJob_def Let_def)

lemma addJob_bound:
  "0 < jobLimit w \<Longrightarrow> jobsInProgress w \<le> jobLimit w \<Longrightarrow> jobsInProgress (addJob opts w) \<le> jobLimit w"
  by (simp add: addJob_def has_capacity_def Let_def)

lemma step_limit [simp]: "jobLimit (step w e) = jobLimit w"
  by (cases e) (simp_all add: clear_def)

lemma step_bound:
  assumes "0 < jobLimit w" "jobsInProgress w \<le> jobLimit w"
  shows "jobsInProgress (step w e) \<le> jobLimit w"
proof (cases e)
  case (AddJob opts)
  with assms show ?thesis by (simp add: addJob_bound)
next
  case Clear
  with assms show ?thesis by (simp add: clear_def)
next
  case (HubState b)
  with assms show ?thesis by simp
next
  case (TimerFires r)
  with assms handler_le(1) [of r "disarm r w"] show ?thesis by simp
next
  case (ImageLoad r)
  with assms handler_le(2) [of r w] show ?thesis by simp
next
  case (ImageError r)
  with assms handler_le(3) [of r w] show ?thesis by simp
next
  case (HubStartDone r)
  with assms handler_le(4) [of r "consume r w"] show ?thesis by simp
next
  case (HubStartFail r)
  with assms handler_le(5) [of r "consume r w"] show ?thesis by simp
next
  case (GetTileDone r d)
  with assms handler_le(6) [of r d "consume r w"] show ?thesis by simp
next
  case (GetTileFail r m)
  with assms handler_le(7) [of r m "consume r w"] show ?thesis by simp
next
  case (XhrSuccess r b u)
  with assms xhrSuccess_le [of r b u "consume r w"] show ?thesis by simp
next
  case (XhrError r)
  with assms handler_le(8) [of r "consume r w"] show ?thesis by simp
qed

lemma run_snoc: "run w (es @ [e]) = step (run w es) e"
  by (simp add: run_def)

lemma run_limit [simp]: "jobLimit (run w es) = jobLimit w"
  by (induction es rule: rev_induct) (simp_all add: run_def)

lemma run_bound:
  assumes "0 < jobLimit w" "jobsInProgress w \<le> jobLimit w"
  shows "jobsInProgress (run w es) \<le> jobLimit w"
proof (induction es rule: rev_induct)
  case Nil
  from assms show ?case by (simp add: run_def)
next
  case (snoc e es)
  from assms(1) snoc step_bound [of "run w es" e] show ?case
    by (simp add: run_snoc)
qed

subsection \<open>Every handler run is quiet or completing\<close>

lemma set_job_set_job [simp]: "set_job r a (set_job r b w) = set_job r a w"
  by (simp add: set_job_def)

lemma set_job_nth [simp]: "r < length (jobs w) \<Longrightarrow> jobs (set_job r j w) ! r = j"
  by simp

lemma quiet_set_job [simp]: "quiet r j ob (set_job r b w) = quiet r j ob w"
  by (simp add: quiet_def)

lemma completing_set_job [simp]: "completing r j ob (set_job r b w) = completing r j ob w"
  by (simp add: completing_def)

lemma finish_Some:
  "image j = Some i \<Longrightarrow> jobId j \<noteq> None \<Longrightarrow> jobId j \<noteq> Some 0 \<Longrightarrow> finish s j = Inr (ended s j)"
  by (simp add: finish_def ended_def)

lemma finish_None: "image j = None \<Longrightarrow> finish s j = Inl TypeError"
  by (simp add: finish_def)

lemma finishJob_completing:
  assumes "r < length (jobs w)" "image (jobs w ! r) = Some i"
    "jobId (jobs w ! r) \<noteq> None" "jobId (jobs w ! r) \<noteq> Some 0"
  shows "uncaught (finishJob r s w) = completing r (ended s (jobs w ! r)) [] w"
  using assms by (simp add: finishJob_def finish_Some uncaught_def completing_def)

lemma uncaught_None [simp]: "uncaught (w, None) = w"
  by (simp add: uncaught_def)

lemma uncaught_Some [simp]: "uncaught (w, Some e) = w\<lparr> trace := trace w @ [Uncaught e] \<rparr>"
  by (simp add: uncaught_def)

lemma incidental_simps [simp]:
  "incidental []" "incidental [Uncaught x]" "incidental [ConsoleError m]"
  by (simp_all add: incidental_def)

lemma timing_ended [simp]:
  "timeout (ended s j) = timeout j" "timer_delay (ended s j) = timer_delay j"
  by (simp_all add: ended_def)

lemma CompletingI:
  "w' = completing r j' ob w \<Longrightarrow> incidental ob \<Longrightarrow> executing (jobs w ! r) \<Longrightarrow> finished j'
   \<Longrightarrow> same_timing (jobs w ! r) j' \<Longrightarrow> Completing r w w'"
  by (auto simp: Completing_def)

lemma finished_ended_False [simp]:
  "finished (ended False j) = (jobId j \<noteq> None \<and> errorMsg j \<noteq> None)"
  by (auto simp: finished_def ended_def)

lemma finished_ended_True:
  "executing j \<Longrightarrow> image_due j \<Longrightarrow> finished (ended True j)"
  by (auto simp: executing_def finished_def ended_def image_due_def split: option.splits)

lemma executing_image: "executing j \<Longrightarrow> \<exists>i. image j = Some i"
  by (auto simp: executing_def split: option.splits)

lemma executing_jobId: "executing j \<Longrightarrow> jobId j \<noteq> None \<and> jobId j \<noteq> Some 0"
  by (auto simp: executing_def)

lemma set_job_same [simp]: "set_job r (jobs w ! r) w = w"
  by (simp add: set_job_def)

lemma fail_exec:
  assumes "r < length (jobs w)" "image j1 = Some i" "jobId j1 \<noteq> None" "jobId j1 \<noteq> Some 0"
  shows "fail_with r m (set_job r j1 w) = (completing r (ended False (j1\<lparr> errorMsg := Some m \<rparr>)) [] w, None)"
  using assms by (simp add: fail_with_def finishJob_def finish_Some completing_def)

lemma fail_after:
  assumes "r < length (jobs w)" "image j1 = None"
  shows "fail_with r m (set_job r j1 w) = (quiet r (j1\<lparr> errorMsg := Some m \<rparr>) [] w, Some TypeError)"
  using assms by (simp add: fail_with_def finishJob_def finish_None quiet_def)

lemma src_exec:
  assumes "r < length (jobs w)" "image j1 = Some i"
  shows "set_image_src r u (set_job r j1 w) = (quiet r (j1\<lparr> image := Some (i\<lparr> img_src := Some u \<rparr>) \<rparr>) [] w, None)"
  using assms by (simp add: set_image_src_def quiet_def)

lemma src_after:
  assumes "r < length (jobs w)" "image j1 = None"
  shows "set_image_src r u (set_job r j1 w) = (quiet r j1 [] w, Some TypeError)"
  using assms by (simp add: set_image_src_def quiet_def)

lemma uncaught_quiet [simp]: "uncaught (quiet r j [] w, Some e) = quiet r j [Uncaught e] w"
  by (simp add: quiet_def)

lemma trace_quiet [simp]: "trace (quiet r j ob w) = trace w @ ob"
  by (simp add: quiet_def)

lemma jobs_quiet [simp]: "jobs (quiet r j ob w) = (jobs w)[r := j]"
  by (simp add: quiet_def)

lemma jobs_completing [simp]: "jobs (completing r j ob w) = jobs (completeJob r (set_job r j w))"
  by (simp add: completing_def)

lemma uncaught_completing [simp]:
  "uncaught (completing r j [] w, Some e) = completing r j [Uncaught e] w"
  by (simp add: completing_def)

lemma not_due_created:
  assumes "target e = Some r" "created (jobs w ! r)"
  shows "step w e = w"
  using assms by (cases e) (auto simp: created_def image_due_def awaiting_def)

lemma not_due_succeeded:
  assumes "target e = Some r" "finished (jobs w ! r)" "image (jobs w ! r) = Some i"
  shows "step w e = w"
  using assms by (cases e) (auto simp: finished_def image_due_def awaiting_def)

lemma not_due_range:
  assumes "target e = Some r" "\<not> r < length (jobs w)"
  shows "step w e = w"
  using assms by (cases e) (auto simp: awaiting_def)

lemma Quiet_fin:
  "w' = quiet r j' ob w \<Longrightarrow> incidental ob \<Longrightarrow> finished (jobs w ! r) \<Longrightarrow> finished j'
   \<Longrightarrow> same_timing (jobs w ! r) j' \<Longrightarrow> Quiet r w w'"
  by (auto simp: Quiet_def keeps_def)

lemma Quiet_exec:
  "w' = quiet r j' ob w \<Longrightarrow> incidental ob \<Longrightarrow> executing (jobs w ! r) \<Longrightarrow> executing j'
   \<Longrightarrow> same_timing (jobs w ! r) j' \<Longrightarrow> Quiet r w w'"
  by (auto simp: Quiet_def keeps_def)

lemma step_failed:
  assumes "target e = Some r" "r < length (jobs w)" "finished (jobs w ! r)" "image (jobs w ! r) = None"
  shows "step w e = w \<or> Quiet r w (step w e)"
proof -
  let ?j = "jobs w ! r"
  have na: "\<not> timer_armed ?j" "\<not> image_due ?j" "jobId ?j \<noteq> None" "errorMsg ?j \<noteq> None"
    using assms(3,4) by (simp_all add: finished_def image_due_def)
  have fin: "\<And>p m. finished (?j\<lparr> pending := p \<rparr>)" "\<And>p m. finished (?j\<lparr> pending := p, errorMsg := Some m \<rparr>)"
    using assms(3,4) by (simp_all add: finished_def)
  show ?thesis
  proof (cases e)
    case (HubStartDone r')
    with assms(1) have [simp]: "r' = r" by simp
    show ?thesis
      using HubStartDone assms(2,3) fin
      by (auto simp: same_timing_def consume_def hubStartDone_def quiet_def
            intro!: Quiet_fin [where ob = "[]" and j' = "?j\<lparr> pending := Some GetTile \<rparr>"])
  next
    case (HubStartFail r')
    with assms(1) have [simp]: "r' = r" by simp
    show ?thesis
      using HubStartFail assms(2,3) fin
      by (auto simp: same_timing_def consume_def hubStartFail_def quiet_def
            intro!: Quiet_fin [where ob = "[ConsoleError ''SignalR could not Connect!'']"
                                and j' = "?j\<lparr> pending := None \<rparr>"])
  next
    case (GetTileDone r' d)
    with assms(1) have [simp]: "r' = r" by simp
    show ?thesis
    proof (cases d)
      case None
      then show ?thesis
        using GetTileDone assms(2,3,4) fin
        by (auto simp: same_timing_def consume_def getTileDone_def fail_after quiet_def
            intro!: Quiet_fin [where ob = "[Uncaught TypeError]"
               and j' = "?j\<lparr> pending := None, errorMsg := Some ''Image load aborted - Empty image response.'' \<rparr>"])
    next
      case (Some a)
      then show ?thesis
        using GetTileDone assms(2,3,4) fin
        by (auto simp: same_timing_def consume_def getTileDone_def src_after quiet_def
            intro!: Quiet_fin [where ob = "[Uncaught TypeError]" and j' = "?j\<lparr> pending := None \<rparr>"])
    qed
  next
    case (GetTileFail r' m)
    with assms(1) have [simp]: "r' = r" by simp
    show ?thesis
      using GetTileFail assms(2,3,4) fin
      by (auto simp: same_timing_def consume_def getTileFail_def fail_after quiet_def
            intro!: Quiet_fin [where ob = "[Uncaught TypeError]"
               and j' = "?j\<lparr> pending := None, errorMsg := Some (''Image load aborted - SignalR error: '' @ m) \<rparr>"])
  next
    case (XhrSuccess r' b u)
    with assms(1) have [simp]: "r' = r" by simp
    show ?thesis
    proof (cases b)
      case None
      then show ?thesis
        using XhrSuccess assms(2,3,4) fin
        by (auto simp: same_timing_def consume_def xhrSuccess_def quiet_def
            intro!: Quiet_fin [where ob = "[Uncaught TypeError]" and j' = "?j\<lparr> pending := None \<rparr>"])
    next
      case (Some n)
      show ?thesis
      proof (cases "n = 0")
        case True
        then show ?thesis
          using Some XhrSuccess assms(2,3,4) fin
          by (auto simp: same_timing_def consume_def xhrSuccess_def fail_after quiet_def
            intro!: Quiet_fin [where ob = "[Uncaught TypeError]"
               and j' = "?j\<lparr> pending := None, errorMsg := Some ''Empty image response.'' \<rparr>"])
      next
        case False
        then show ?thesis
          using Some XhrSuccess assms(2,3,4) fin
          by (auto simp: same_timing_def consume_def xhrSuccess_def src_after quiet_def
            intro!: Quiet_fin [where ob = "[Uncaught TypeError]" and j' = "?j\<lparr> pending := None \<rparr>"])
      qed
    qed
  next
    case (XhrError r')
    with assms(1) have [simp]: "r' = r" by simp
    show ?thesis
      using XhrError assms(2,3,4) fin
      by (auto simp: same_timing_def consume_def xhrError_def fail_after quiet_def
            intro!: Quiet_fin [where ob = "[Uncaught TypeError]"
               and j' = "?j\<lparr> pending := None, errorMsg := Some ''Image load aborted - XHR error'' \<rparr>"])
  qed (use assms na in auto)
qed

lemma jobs_completeJob_other:
  assumes "r \<notin> set (jobQueue w)"
  shows "jobs (completeJob r w) ! r = jobs w ! r"
proof (cases "promotes w")
  case True
  then have "hd (jobQueue w) \<in> set (jobQueue w)" by (simp add: promotes_def)
  with assms have "hd (jobQueue w) \<noteq> r" by auto
  with True show ?thesis by (simp add: completeJob_fields)
next
  case False
  then show ?thesis by (simp add: completeJob_fields)
qed

lemma src_after_completing:
  assumes "r < length (jobs w)" "r \<notin> set (jobQueue w)" "image j1 = None"
  shows "uncaught (set_image_src r u (completing r j1 [] w)) = completing r j1 [Uncaught TypeError] w"
proof -
  have "jobs (completing r j1 [] w) ! r = jobs (set_job r j1 w) ! r"
    using assms(2) jobs_completeJob_other [of r "set_job r j1 w"] by simp
  with assms(1,3) have "image (jobs (completing r j1 [] w) ! r) = None" by simp
  then show ?thesis by (simp add: set_image_src_def completing_def)
qed

lemma step_executing:
  assumes "target e = Some r" "r < length (jobs w)" "executing (jobs w ! r)" "r \<notin> set (jobQueue w)"
  shows "step w e = w \<or> Quiet r w (step w e) \<or> Completing r w (step w e)"
proof -
  let ?j = "jobs w ! r"
  obtain i where i: "image ?j = Some i" using executing_image [OF assms(3)] by blast
  have id: "jobId ?j \<noteq> None" "jobId ?j \<noteq> Some 0" using executing_jobId [OF assms(3)] by simp_all
  have ex: "\<And>p. img_src i = None \<Longrightarrow> executing (?j\<lparr> pending := p \<rparr>)"
    "executing (?j\<lparr> pending := None \<rparr>)"
    "\<And>u. executing (?j\<lparr> pending := None, image := Some (i\<lparr> img_src := Some u \<rparr>) \<rparr>)"
    using assms(3) i by (auto simp: executing_def)
  have nosrc: "pending ?j \<noteq> None \<Longrightarrow> img_src i = None"
    using assms(3) i by (auto simp: executing_def)
  note C = CompletingI [where w = w and r = r]
  show ?thesis
  proof (cases e)
    case (AddJob x1)
    with assms(1) show ?thesis by simp
  next
    case Clear
    with assms(1) show ?thesis by simp
  next
    case (HubState x3)
    with assms(1) show ?thesis by simp
  next
    case (TimerFires r')
    with assms(1) have [simp]: "r' = r" by simp
    have armed: "timer_armed ?j" using assms(3) by (simp add: executing_def)
    have eq: "step w e = completing r (ended False (?j\<lparr> timer_armed := False, errorMsg :=
        Some (''Image load exceeded timeout ('' @ string_of_int (timeout ?j) @ '' ms)'') \<rparr>)) [] w"
      using TimerFires armed assms(2) i id
        fail_exec [of r w "?j\<lparr> timer_armed := False \<rparr>" i
          "''Image load exceeded timeout ('' @ string_of_int (timeout ?j) @ '' ms)''"]
      by (simp add: onTimeout_def disarm_def)
    show ?thesis
      by (intro disjI2 C [OF eq]) (simp_all add: assms(3) id same_timing_def)
  next
    case (ImageLoad r')
    with assms(1) have [simp]: "r' = r" by simp
    show ?thesis
    proof (cases "image_due ?j")
      case True
      have eq: "step w e = completing r (ended True ?j) [] w"
        using ImageLoad True assms(2) i id finishJob_completing [of r w i True]
        by (simp add: onload_def)
      show ?thesis
        by (intro disjI2 C [OF eq]) (simp_all add: assms(3) True finished_ended_True same_timing_def)
    next
      case False
      with ImageLoad show ?thesis by simp
    qed
  next
    case (ImageError r')
    with assms(1) have [simp]: "r' = r" by simp
    show ?thesis
    proof (cases "image_due ?j")
      case True
      have eq: "step w e = completing r (ended False (?j\<lparr> errorMsg := Some ''Image load aborted'' \<rparr>)) [] w"
        using ImageError True assms(2) i id fail_exec [of r w ?j i "''Image load aborted''"]
        by (simp add: onerror_def)
      show ?thesis
        by (intro disjI2 C [OF eq]) (simp_all add: assms(3) id same_timing_def)
    next
      case False
      with ImageError show ?thesis by simp
    qed
  next
    case (HubStartDone r')
    with assms(1) have [simp]: "r' = r" by simp
    show ?thesis
      using HubStartDone assms(2,3) ex nosrc
      by (auto simp: same_timing_def awaiting_def consume_def hubStartDone_def quiet_def
            intro!: Quiet_exec [where ob = "[]" and j' = "?j\<lparr> pending := Some GetTile \<rparr>"])
  next
    case (HubStartFail r')
    with assms(1) have [simp]: "r' = r" by simp
    show ?thesis
      using HubStartFail assms(2,3) ex
      by (auto simp: same_timing_def consume_def hubStartFail_def quiet_def
            intro!: Quiet_exec [where ob = "[ConsoleError ''SignalR could not Connect!'']"
                                and j' = "?j\<lparr> pending := None \<rparr>"])
  next
    case (GetTileDone r' d)
    with assms(1) have [simp]: "r' = r" by simp
    show ?thesis
    proof (cases "awaiting w r GetTile")
      case False
      with GetTileDone show ?thesis by simp
    next
      case True
      show ?thesis
      proof (cases d)
        case None
        have eq: "step w e = completing r (ended False (?j\<lparr> pending := None,
            errorMsg := Some ''Image load aborted - Empty image response.'' \<rparr>)) [] w"
          using GetTileDone None True assms(2) i id
            fail_exec [of r w "?j\<lparr> pending := None \<rparr>" i "''Image load aborted - Empty image response.''"]
          by (simp add: getTileDone_def consume_def)
        show ?thesis
          by (intro disjI2 C [OF eq]) (simp_all add: assms(3) id same_timing_def)
      next
        case (Some a)
        obtain mime b64 where a: "a = (mime, b64)" by (cases a)
        have eq: "step w e = quiet r (?j\<lparr> pending := None,
            image := Some (i\<lparr> img_src := Some (''data:'' @ mime @ '';base64,'' @ b64) \<rparr>) \<rparr>) [] w"
          using GetTileDone Some a True assms(2) i
            src_exec [of r w "?j\<lparr> pending := None \<rparr>" i]
          by (simp add: getTileDone_def consume_def)
        show ?thesis
          by (intro disjI2 disjI1 Quiet_exec [OF eq]) (simp_all add: assms(3) ex same_timing_def)
      qed
    qed
  next
    case (GetTileFail r' m)
    with assms(1) have [simp]: "r' = r" by simp
    show ?thesis
    proof (cases "awaiting w r GetTile")
      case False
      with GetTileFail show ?thesis by simp
    next
      case True
      have eq: "step w e = completing r (ended False (?j\<lparr> pending := None,
            errorMsg := Some (''Image load aborted - SignalR error: '' @ m) \<rparr>)) [] w"
        using GetTileFail True assms(2) i id
          fail_exec [of r w "?j\<lparr> pending := None \<rparr>" i "''Image load aborted - SignalR error: '' @ m"]
        by (simp add: getTileFail_def consume_def)
      show ?thesis
        by (intro disjI2 C [OF eq]) (simp_all add: assms(3) id same_timing_def)
    qed
  next
    case (XhrSuccess r' b u)
    with assms(1) have [simp]: "r' = r" by simp
    show ?thesis
    proof (cases "awaiting w r Xhr")
      case False
      with XhrSuccess show ?thesis by simp
    next
      case True
      show ?thesis
      proof (cases b)
        case None
        have eq: "step w e = quiet r (?j\<lparr> pending := None \<rparr>) [Uncaught TypeError] w"
          using XhrSuccess None True by (simp add: xhrSuccess_def consume_def quiet_def)
        show ?thesis
          by (intro disjI2 disjI1 Quiet_exec [OF eq]) (simp_all add: assms(3) ex same_timing_def)
      next
        case (Some n)
        show ?thesis
        proof (cases "n = 0")
          case True
          let ?J = "ended False (?j\<lparr> pending := None, errorMsg := Some ''Empty image response.'' \<rparr>)"
          have "image ?J = None" by (simp add: ended_def)
          then have "uncaught (set_image_src r u (completing r ?J [] w)) = completing r ?J [Uncaught TypeError] w"
            using src_after_completing [OF assms(2,4)] by blast
          then have eq: "step w e = completing r ?J [Uncaught TypeError] w"
            using XhrSuccess Some True \<open>awaiting w r Xhr\<close> assms(2) i id
              fail_exec [of r w "?j\<lparr> pending := None \<rparr>" i "''Empty image response.''"]
            by (simp add: xhrSuccess_def consume_def)
          show ?thesis
            by (intro disjI2 C [OF eq]) (simp_all add: assms(3) id same_timing_def)
        next
          case False
          have eq: "step w e = quiet r (?j\<lparr> pending := None, image := Some (i\<lparr> img_src := Some u \<rparr>) \<rparr>) [] w"
            using XhrSuccess Some False \<open>awaiting w r Xhr\<close> assms(2) i
              src_exec [of r w "?j\<lparr> pending := None \<rparr>" i]
            by (simp add: xhrSuccess_def consume_def)
          show ?thesis
            by (intro disjI2 disjI1 Quiet_exec [OF eq]) (simp_all add: assms(3) ex same_timing_def)
        qed
      qed
    qed
  next
    case (XhrError r')
    with assms(1) have [simp]: "r' = r" by simp
    show ?thesis
    proof (cases "awaiting w r Xhr")
      case False
      with XhrError show ?thesis by simp
    next
      case True
      have eq: "step w e = completing r (ended False (?j\<lparr> pending := None,
            errorMsg := Some ''Image load aborted - XHR error'' \<rparr>)) [] w"
        using XhrError True assms(2) i id
          fail_exec [of r w "?j\<lparr> pending := None \<rparr>" i "''Image load aborted - XHR error''"]
        by (simp add: xhrError_def consume_def)
      show ?thesis
        by (intro disjI2 C [OF eq]) (simp_all add: assms(3) id same_timing_def)
    qed
  qed
qed

subsection \<open>The invariant is kept\<close>

lemma callbacks_of_append [simp]: "callbacks_of k (xs @ ys) = callbacks_of k xs @ callbacks_of k ys"
  by (simp add: callbacks_of_def)

lemma started_refs_append [simp]: "started_refs (xs @ ys) = started_refs xs @ started_refs ys"
  by (simp add: started_refs_def)

lemma callbacks_of_simps [simp]:
  "callbacks_of k [] = []"
  "callbacks_of k (TileLoadStart r s # xs) = callbacks_of k xs"
  "callbacks_of k (Callback r i e q # xs) = (if r = k then Callback r i e q # callbacks_of k xs else callbacks_of k xs)"
  by (simp_all add: callbacks_of_def)

lemma started_refs_simps [simp]:
  "started_refs [] = []"
  "started_refs (TileLoadStart r s # xs) = r # started_refs xs"
  "started_refs (Callback r i e q # xs) = started_refs xs"
  by (simp_all add: started_refs_def)

lemma callbacks_incidental [simp]: "incidental ob \<Longrightarrow> callbacks_of k ob = []"
proof (induction ob)
  case Nil
  then show ?case by simp
next
  case (Cons x ob)
  then show ?case by (cases x) (auto simp: incidental_def callbacks_of_def)
qed

lemma started_incidental [simp]: "incidental ob \<Longrightarrow> started_refs ob = []"
proof (induction ob)
  case Nil
  then show ?case by simp
next
  case (Cons x ob)
  then show ?case by (cases x) (auto simp: incidental_def started_refs_def)
qed

lemma reported_incidental: "incidental ob \<Longrightarrow> x \<in> set ob \<Longrightarrow> well_reported x \<and> in_range n x"
  by (cases x) (auto simp: incidental_def in_range_def list_all_iff)

lemma callbacks_beyond:
  "\<forall>x \<in> set tr. in_range n x \<Longrightarrow> n \<le> k \<Longrightarrow> callbacks_of k tr = []"
proof (induction tr)
  case Nil
  then show ?case by simp
next
  case (Cons x tr)
  then show ?case by (cases x) (auto simp: in_range_def callbacks_of_def)
qed

lemma started_within:
  "\<forall>x \<in> set tr. in_range n x \<Longrightarrow> k \<in> set (started_refs tr) \<Longrightarrow> k < n"
proof (induction tr)
  case Nil
  then show ?case by simp
next
  case (Cons x tr)
  then show ?case by (cases x) (auto simp: in_range_def started_refs_def)
qed

lemma in_range_mono: "in_range n x \<Longrightarrow> n \<le> m \<Longrightarrow> in_range m x"
  by (auto simp: in_range_def split: option.splits)

lemma count_update_nat:
  "k < length xs \<Longrightarrow>
   length (filter P (xs[k := y])) + (if P (xs ! k) then 1 else 0) =
     length (filter P xs) + (if P y then 1 else 0)"
proof (induction xs arbitrary: k)
  case Nil
  then show ?case by simp
next
  case (Cons x xs)
  then show ?case by (cases k) auto
qed

lemma count_update:
  "k < length xs \<Longrightarrow>
   int (length (filter P (xs[k := y]))) =
     int (length (filter P xs)) + (if P y then 1 else 0) - (if P (xs ! k) then 1 else 0)"
  using count_update_nat [of k xs P y] by (auto split: if_splits)

lemma created_ImageJob [simp]: "created (ImageJob opts t)"
  by (simp add: created_def ImageJob_def)

lemma executing_start: "created j \<Longrightarrow> executing (start (Suc r) c j)"
  by (auto simp: created_def executing_def start_def Let_def)

lemma timer_armed_start [simp]: "timer_armed (start n c j)"
  by (simp add: start_def Let_def)

lemma created_not_armed: "created j \<Longrightarrow> \<not> timer_armed j"
  by (simp add: created_def)

lemma phases_exclusive:
  "created j \<Longrightarrow> \<not> executing j" "created j \<Longrightarrow> \<not> finished j" "executing j \<Longrightarrow> \<not> finished j"
  by (auto simp: created_def executing_def finished_def)

lemma Inv_init: "Inv (ImageLoader limit t)"
  by (simp add: Inv_def ImageLoader_def)

lemma Inv_hub: "Inv w \<Longrightarrow> Inv (w\<lparr> hubConnected := b \<rparr>)"
  by (auto simp: Inv_def job_inv_def has_capacity_def)

lemma Inv_addJob:
  assumes "Inv w"
  shows "Inv (addJob opts w)"
proof -
  let ?n = "length (jobs w)"
  from assms have J: "\<forall>k < ?n. job_inv w k"
    and Q: "\<forall>k \<in> set (jobQueue w). k < ?n \<and> created (jobs w ! k)"
    and D: "distinct (jobQueue w)"
    and T: "\<forall>x \<in> set (trace w). well_reported x \<and> in_range ?n x"
    and C: "jobsInProgress w = int (length (filter timer_armed (jobs w)))"
    and S: "sorted_wrt (<) (started_refs (trace w) @ jobQueue w)"
    and F: "jobQueue w = [] \<or> \<not> has_capacity w"
    by (simp_all add: Inv_def)
  have nq: "?n \<notin> set (jobQueue w)" using Q by auto
  have nocb: "callbacks_of ?n (trace w) = []" using T callbacks_beyond [of "trace w" ?n ?n] by simp
  have below: "\<forall>k \<in> set (started_refs (trace w) @ jobQueue w). k < ?n"
    using T Q started_within [of "trace w" ?n] by auto
  have T': "\<forall>x \<in> set (trace w). well_reported x \<and> in_range (Suc ?n) x"
    using T in_range_mono [of ?n _ "Suc ?n"] by auto
  show ?thesis
  proof (cases "has_capacity w")
    case True
    with F have q: "jobQueue w = []" by simp
    let ?j = "start (Suc ?n) (hubConnected w) (ImageJob opts (loaderTimeout w))"
    have w': "addJob opts w = w\<lparr> trace := trace w @ [TileLoadStart ?n (src opts)],
        jobs := jobs w @ [?j], jobsInProgress := jobsInProgress w + 1 \<rparr>"
      using True by (simp add: addJob_def startJob_def has_capacity_def Let_def ImageJob_def)
    have ex: "executing ?j" by (simp add: executing_start)
    have "\<forall>k < Suc ?n. job_inv (addJob opts w) k"
    proof (intro allI impI)
      fix k assume "k < Suc ?n"
      show "job_inv (addJob opts w) k"
      proof (cases "k = ?n")
        case True
        then show ?thesis using ex nocb q by (simp add: w' job_inv_def)
      next
        case False
        with \<open>k < Suc ?n\<close> have "k < ?n" by simp
        with J have "job_inv w k" by simp
        with \<open>k < ?n\<close> show ?thesis by (simp add: w' job_inv_def nth_append)
      qed
    qed
    moreover have "sorted_wrt (<) (started_refs (trace w) @ [?n])"
      using S below q by (auto simp: sorted_wrt_append)
    ultimately show ?thesis
      using q T' C by (simp add: Inv_def w' in_range_def)
  next
    case False
    have w': "addJob opts w = w\<lparr> jobs := jobs w @ [ImageJob opts (loaderTimeout w)],
        jobQueue := jobQueue w @ [?n] \<rparr>"
      using False by (simp add: addJob_def has_capacity_def Let_def)
    have "\<forall>k < Suc ?n. job_inv (addJob opts w) k"
    proof (intro allI impI)
      fix k assume "k < Suc ?n"
      show "job_inv (addJob opts w) k"
      proof (cases "k = ?n")
        case True
        then show ?thesis using nocb by (simp add: w' job_inv_def)
      next
        case False
        with \<open>k < Suc ?n\<close> have "k < ?n" by simp
        with J have "job_inv w k" by simp
        with \<open>k < ?n\<close> show ?thesis by (simp add: w' job_inv_def nth_append)
      qed
    qed
    moreover have "sorted_wrt (<) (started_refs (trace w) @ jobQueue w @ [?n])"
      using S below sorted_wrt_append [of "(<)" "started_refs (trace w) @ jobQueue w" "[?n]"] by auto
    moreover have "\<forall>k \<in> set (jobQueue w @ [?n]). k < Suc ?n \<and> created ((jobs w @ [ImageJob opts (loaderTimeout w)]) ! k)"
      using Q by (auto simp: nth_append)
    ultimately show ?thesis
      using T' C D nq False by (simp add: Inv_def w' has_capacity_def created_not_armed)
  qed
qed

lemma incidental_call_abort: "incidental (call_abort r f)"
  by (induction f) (simp_all add: incidental_def)

lemma incidental_append: "incidental xs \<Longrightarrow> incidental ys \<Longrightarrow> incidental (xs @ ys)"
  by (simp add: incidental_def)

lemma incidental_aborts: "incidental (concat (map (\<lambda>r. call_abort r (f r)) q))"
  by (induction q) (simp_all add: incidental_append incidental_call_abort)

lemma Inv_clear:
  assumes "Inv w"
  shows "Inv (clear w)"
proof -
  let ?ob = "concat (map (\<lambda>r. call_abort r (abort (jobs w ! r))) (jobQueue w))"
  have ob: "incidental ?ob" by (rule incidental_aborts)
  have S: "sorted_wrt (<) (started_refs (trace w))"
    using assms by (simp add: Inv_def sorted_wrt_append)
  have T: "\<forall>x \<in> set ?ob. well_reported x \<and> in_range (length (jobs w)) x"
    using reported_incidental [OF ob] by blast
  have J: "\<forall>k < length (jobs w). job_inv (clear w) k"
    using assms ob by (auto simp: Inv_def job_inv_def clear_def)
  show ?thesis
    using assms J S T ob by (auto simp: Inv_def clear_def)
qed

lemma not_queued:
  assumes "Inv w" "r < length (jobs w)" "executing (jobs w ! r) \<or> finished (jobs w ! r)"
  shows "r \<notin> set (jobQueue w)"
  using assms phases_exclusive by (auto simp: Inv_def)

lemma Inv_Quiet:
  assumes "Inv w" "r < length (jobs w)" "Quiet r w w'"
  shows "Inv w'"
proof -
  from assms(3) obtain j' ob where w': "w' = quiet r j' ob w" and ob: "incidental ob"
    and keeps: "keeps (jobs w ! r) j'"
    by (auto simp: Quiet_def)
  let ?j = "jobs w ! r"
  have nq: "r \<notin> set (jobQueue w)"
    using not_queued [OF assms(1,2)] keeps by (auto simp: keeps_def)
  have armed: "timer_armed j' = timer_armed ?j"
    using keeps by (auto simp: keeps_def executing_def finished_def)
  have ncr: "\<not> created ?j" "\<not> created j'"
    using keeps phases_exclusive by (auto simp: keeps_def)
  have [simp]: "jobQueue w' = jobQueue w" "jobsInProgress w' = jobsInProgress w"
    "jobLimit w' = jobLimit w" "trace w' = trace w @ ob" "jobs w' = (jobs w)[r := j']"
    by (simp_all add: w' quiet_def)
  have J: "\<forall>k < length (jobs w). job_inv w' k"
  proof (intro allI impI)
    fix k assume k: "k < length (jobs w)"
    with assms(1) have jk: "job_inv w k" by (simp add: Inv_def)
    show "job_inv w' k"
    proof (cases "k = r")
      case True
      with jk keeps ncr ob assms(2) phases_exclusive show ?thesis
        by (auto simp: job_inv_def keeps_def)
    next
      case False
      with jk ob show ?thesis by (simp add: job_inv_def)
    qed
  qed
  have Q: "\<forall>k \<in> set (jobQueue w). k < length (jobs w) \<and> created ((jobs w)[r := j'] ! k)"
    using assms(1,2) nq by (auto simp: Inv_def nth_list_update)
  have T: "\<forall>x \<in> set (trace w @ ob). well_reported x \<and> in_range (length (jobs w)) x"
    using assms(1) reported_incidental [OF ob] by (auto simp: Inv_def)
  have C: "int (length (filter timer_armed ((jobs w)[r := j']))) = jobsInProgress w"
    using assms(1,2) armed by (simp add: count_update Inv_def)
  show ?thesis
    using assms(1) J Q T C ob by (auto simp: Inv_def has_capacity_def)
qed

lemma promotes_set_job [simp]: "promotes (set_job r j w) = promotes w"
  by (simp add: promotes_def)

lemma completing_promote:
  assumes "promotes w" "jobQueue w = h # t" "h \<noteq> r" "r < length (jobs w)"
  shows "jobs (completing r j' ob w) = (jobs w)[r := j', h := start (Suc h) (hubConnected w) (jobs w ! h)]"
    and "trace (completing r j' ob w) =
          trace w @ [TileLoadStart h (src (jobs w ! h)), Callback r (image j') (errorMsg j') (request j')] @ ob"
    and "jobQueue (completing r j' ob w) = t"
    and "jobsInProgress (completing r j' ob w) = jobsInProgress w"
    and "jobLimit (completing r j' ob w) = jobLimit w"
  using assms by (simp_all add: completing_def completeJob_fields completeJob_trace)

lemma completing_plain:
  assumes "\<not> promotes w" "r < length (jobs w)"
  shows "jobs (completing r j' ob w) = (jobs w)[r := j']"
    and "trace (completing r j' ob w) =
          trace w @ [Callback r (image j') (errorMsg j') (request j')] @ ob"
    and "jobQueue (completing r j' ob w) = jobQueue w"
    and "jobsInProgress (completing r j' ob w) = jobsInProgress w - 1"
    and "jobLimit (completing r j' ob w) = jobLimit w"
  using assms by (simp_all add: completing_def completeJob_fields completeJob_trace)

lemma finished_reported: "finished j \<Longrightarrow> well_reported (Callback r (image j) (errorMsg j) q)"
  by (auto simp: finished_def split: option.splits)

lemma Inv_Completing:
  assumes "Inv w" "r < length (jobs w)" "Completing r w w'"
  shows "Inv w'"
proof -
  from assms(3) obtain j' ob where w': "w' = completing r j' ob w" and ob: "incidental ob"
    and ex: "executing (jobs w ! r)" and fin: "finished j'"
    by (auto simp: Completing_def)
  let ?n = "length (jobs w)"
  let ?j = "jobs w ! r"
  let ?cb = "Callback r (image j') (errorMsg j') (request j')"
  from assms(1) have J: "\<forall>k < ?n. job_inv w k"
    and Q: "\<forall>k \<in> set (jobQueue w). k < ?n \<and> created (jobs w ! k)"
    and D: "distinct (jobQueue w)"
    and T: "\<forall>x \<in> set (trace w). well_reported x \<and> in_range ?n x"
    and C: "jobsInProgress w = int (length (filter timer_armed (jobs w)))"
    and S: "sorted_wrt (<) (started_refs (trace w) @ jobQueue w)"
    and F: "jobQueue w = [] \<or> \<not> has_capacity w"
    by (simp_all add: Inv_def)
  have nq: "r \<notin> set (jobQueue w)" using not_queued [OF assms(1,2)] ex by simp
  have cb0: "callbacks_of r (trace w) = []"
    using J assms(2) ex phases_exclusive by (auto simp: job_inv_def)
  have armed: "timer_armed ?j" "\<not> timer_armed j'"
    using ex fin by (simp_all add: executing_def finished_def)
  have ncr: "\<not> created j'" using fin phases_exclusive by auto
  have Tob: "\<forall>x \<in> set ob. well_reported x \<and> in_range ?n x"
    using reported_incidental [OF ob] by blast
  have Tcb: "well_reported ?cb \<and> in_range ?n ?cb"
    using finished_reported [OF fin, of r "request j'"] assms(2)
    by (simp add: in_range_def del: well_reported.simps)
  show ?thesis
  proof (cases "promotes w")
    case True
    then obtain h t where q: "jobQueue w = h # t" by (cases "jobQueue w") (auto simp: promotes_def)
    with Q D nq have h: "h < ?n" "created (jobs w ! h)" "h \<noteq> r" "h \<notin> set t" "distinct t" "r \<notin> set t"
      by auto
    let ?s = "start (Suc h) (hubConnected w) (jobs w ! h)"
    note f = completing_promote [OF True q h(3) assms(2), of j' ob, folded w']
    have exs: "executing ?s" "timer_armed ?s" using h(2) by (simp_all add: executing_start)
    have J': "\<forall>k < ?n. job_inv w' k"
    proof (intro allI impI)
      fix k assume k: "k < ?n"
      with J have jk: "job_inv w k" by simp
      consider "k = r" | "k = h" | "k \<noteq> r" "k \<noteq> h" by blast
      then show "job_inv w' k"
      proof cases
        case 1
        with h fin cb0 ob assms(2) show ?thesis by (simp add: job_inv_def f)
      next
        case 2
        have "callbacks_of h (trace w) = []"
          using jk 2 h(2) phases_exclusive by (auto simp: job_inv_def)
        with 2 h exs ob show ?thesis by (simp add: job_inv_def f)
      next
        case 3
        with jk ob q show ?thesis by (auto simp: job_inv_def f)
      qed
    qed
    have Q': "\<forall>k \<in> set t. k < ?n \<and> created (jobs w' ! k)"
      using Q q h assms(2) by (auto simp: f nth_list_update)
    have T': "\<forall>x \<in> set (trace w'). well_reported x \<and> in_range ?n x"
      using T Tob Tcb h(1) by (auto simp: f in_range_def)
    have C': "jobsInProgress w' = int (length (filter timer_armed (jobs w')))"
      using C armed exs h assms(2) created_not_armed [OF h(2)]
      by (simp add: f count_update)
    have S': "sorted_wrt (<) (started_refs (trace w') @ t)"
      using S q ob by (simp add: f)
    have F': "t = [] \<or> \<not> has_capacity w'"
      using F q by (simp add: has_capacity_def f)
    show ?thesis
      using J' Q' T' C' S' F' h(5) by (simp add: Inv_def f)
  next
    case False
    note f = completing_plain [OF False assms(2), of j' ob, folded w']
    have J': "\<forall>k < ?n. job_inv w' k"
    proof (intro allI impI)
      fix k assume k: "k < ?n"
      with J have jk: "job_inv w k" by simp
      show "job_inv w' k"
      proof (cases "k = r")
        case True
        with fin cb0 ob nq assms(2) show ?thesis by (simp add: job_inv_def f)
      next
        case False
        with jk ob show ?thesis by (auto simp: job_inv_def f)
      qed
    qed
    have Q': "\<forall>k \<in> set (jobQueue w). k < ?n \<and> created (jobs w' ! k)"
      using Q nq assms(2) by (auto simp: f nth_list_update)
    have T': "\<forall>x \<in> set (trace w'). well_reported x \<and> in_range ?n x"
      using T Tob Tcb by (auto simp: f)
    have C': "jobsInProgress w' = int (length (filter timer_armed (jobs w')))"
      using C armed assms(2) by (simp add: f count_update)
    have S': "sorted_wrt (<) (started_refs (trace w') @ jobQueue w)"
      using S ob by (simp add: f)
    have F': "jobQueue w = [] \<or> \<not> has_capacity w'"
      using False by (auto simp: has_capacity_def promotes_def f)
    show ?thesis
      using J' Q' T' C' S' F' D by (simp add: Inv_def f)
  qed
qed

lemma Inv_step:
  assumes "Inv w"
  shows "Inv (step w e)"
proof (cases "target e")
  case None
  then show ?thesis
    using assms by (cases e) (simp_all add: Inv_addJob Inv_clear Inv_hub)
next
  case (Some r)
  show ?thesis
  proof (cases "r < length (jobs w)")
    case False
    with Some assms show ?thesis by (simp add: not_due_range)
  next
    case True
    with assms have "job_inv w r" by (simp add: Inv_def)
    then consider (c) "created (jobs w ! r)"
      | (x) "executing (jobs w ! r)" "r \<notin> set (jobQueue w)"
      | (f) "finished (jobs w ! r)"
      by (auto simp: job_inv_def)
    then show ?thesis
    proof cases
      case c
      with Some assms show ?thesis by (simp add: not_due_created)
    next
      case x
      from step_executing [OF Some True x] assms True show ?thesis
        by (auto intro: Inv_Quiet Inv_Completing)
    next
      case f
      show ?thesis
      proof (cases "image (jobs w ! r)")
        case None
        from step_failed [OF Some True f None] assms True show ?thesis
          by (auto intro: Inv_Quiet)
      next
        case (Some i)
        with \<open>target e = Some r\<close> f assms show ?thesis by (simp add: not_due_succeeded)
      qed
    qed
  qed
qed

lemma Inv_run: "Inv w \<Longrightarrow> Inv (run w es)"
  by (induction es rule: rev_induct) (simp_all add: run_snoc Inv_step, simp add: run_def)

lemma Inv_reachable: "Inv (run (ImageLoader limit t) es)"
  by (simp add: Inv_run Inv_init)

lemma armed_iff_executing:
  assumes "Inv w" "j \<in> set (jobs w)"
  shows "timer_armed j = executing j"
proof -
  from assms(2) obtain k where k: "k < length (jobs w)" "jobs w ! k = j"
    by (auto simp: in_set_conv_nth)
  with assms(1) have "job_inv w k" by (simp add: Inv_def)
  with k show ?thesis
    by (auto simp: job_inv_def created_def executing_def finished_def)
qed

lemma count_executing:
  assumes "Inv w"
  shows "jobsInProgress w = int (length (filter executing (jobs w)))"
proof -
  have "filter timer_armed (jobs w) = filter executing (jobs w)"
    using armed_iff_executing [OF assms] by (intro filter_cong) auto
  with assms show ?thesis by (simp add: Inv_def)
qed

subsection \<open>Timeouts\<close>

lemma list_all_update:
  "list_all P xs \<Longrightarrow> P y \<Longrightarrow> list_all P (xs[k := y])"
  by (induction xs arbitrary: k) (auto split: nat.splits)

lemma timing_start:
  "timeout j = t \<Longrightarrow> timeout (start n c j) = t \<and> timer_delay (start n c j) = Some t"
  by (simp add: start_def Let_def)

lemma loaderTimeout_completing [simp]: "loaderTimeout (completing r j ob w) = loaderTimeout w"
  by (simp add: completing_def completeJob_fields)

lemma loaderTimeout_quiet [simp]: "loaderTimeout (quiet r j ob w) = loaderTimeout w"
  by (simp add: quiet_def)

lemma timing_addJob: "timing_inv w \<Longrightarrow> timing_inv (addJob opts w)"
  by (auto simp: timing_inv_def job_timing_def addJob_def Let_def startJob_def timing_start
        ImageJob_def)

lemma timing_Quiet:
  assumes "timing_inv w" "r < length (jobs w)" "Quiet r w w'"
  shows "timing_inv w' \<and> loaderTimeout w' = loaderTimeout w"
proof -
  from assms(3) obtain j' ob where w': "w' = quiet r j' ob w" and keeps: "keeps (jobs w ! r) j'"
    by (auto simp: Quiet_def)
  have old: "job_timing (loaderTimeout w) (jobs w ! r)"
    using assms(1,2) by (simp add: timing_inv_def list_all_length)
  have "timer_armed j' = timer_armed (jobs w ! r)"
    using keeps by (auto simp: keeps_def executing_def finished_def)
  with old keeps have "job_timing (loaderTimeout w) j'"
    by (auto simp: keeps_def same_timing_def job_timing_def)
  with assms(1) show ?thesis
    by (simp add: timing_inv_def w' list_all_update)
qed

lemma timing_Completing:
  assumes "timing_inv w" "r < length (jobs w)" "Completing r w w'"
  shows "timing_inv w' \<and> loaderTimeout w' = loaderTimeout w"
proof -
  from assms(3) obtain j' ob where w': "w' = completing r j' ob w"
    and fin: "finished j'" and st: "same_timing (jobs w ! r) j'"
    by (auto simp: Completing_def)
  have old: "job_timing (loaderTimeout w) (jobs w ! r)"
    using assms(1,2) by (simp add: timing_inv_def list_all_length)
  have new: "job_timing (loaderTimeout w) j'"
    using old st fin by (auto simp: same_timing_def finished_def job_timing_def)
  have base: "list_all (job_timing (loaderTimeout w)) ((jobs w)[r := j'])"
    using assms(1) new by (simp add: timing_inv_def list_all_update)
  show ?thesis
  proof (cases "promotes w")
    case False
    with base show ?thesis by (simp add: timing_inv_def w' completing_def completeJob_fields)
  next
    case True
    let ?h = "hd (jobQueue w)"
    let ?old = "(jobs w)[r := j'] ! ?h"
    show ?thesis
    proof (cases "?h < length (jobs w)")
      case False
      with base True show ?thesis
        by (simp add: timing_inv_def w' completing_def completeJob_fields list_update_beyond)
    next
      case h: True
      with base have "timeout ?old = loaderTimeout w"
        by (auto simp: list_all_length job_timing_def)
      then have "job_timing (loaderTimeout w) (start (Suc ?h) (hubConnected w) ?old)"
        using timing_start [of ?old "loaderTimeout w"] by (simp add: job_timing_def)
      with base True show ?thesis
        by (simp add: timing_inv_def w' completing_def completeJob_fields list_all_update)
    qed
  qed
qed

lemma loaderTimeout_clear [simp]: "loaderTimeout (clear w) = loaderTimeout w"
  by (simp add: clear_def)

lemma loaderTimeout_addJob [simp]: "loaderTimeout (addJob opts w) = loaderTimeout w"
  by (simp add: addJob_def Let_def)

lemma timing_step:
  assumes "Inv w" "timing_inv w"
  shows "timing_inv (step w e) \<and> loaderTimeout (step w e) = loaderTimeout w"
proof (cases "target e")
  case None
  then show ?thesis
    using assms(2) by (cases e) (simp_all add: timing_addJob, simp_all add: timing_inv_def clear_def)
next
  case (Some r)
  show ?thesis
  proof (cases "r < length (jobs w)")
    case False
    with Some assms show ?thesis by (simp add: not_due_range)
  next
    case True
    with assms have "job_inv w r" by (simp add: Inv_def)
    then consider (c) "created (jobs w ! r)"
      | (x) "executing (jobs w ! r)" "r \<notin> set (jobQueue w)"
      | (f) "finished (jobs w ! r)"
      by (auto simp: job_inv_def)
    then show ?thesis
    proof cases
      case c
      with Some assms show ?thesis by (simp add: not_due_created)
    next
      case x
      from step_executing [OF Some True x] assms True show ?thesis
        using timing_Quiet [OF assms(2) True] timing_Completing [OF assms(2) True] by auto
    next
      case f
      show ?thesis
      proof (cases "image (jobs w ! r)")
        case None
        from step_failed [OF Some True f None] assms True show ?thesis
          using timing_Quiet [OF assms(2) True] by auto
      next
        case (Some i)
        with \<open>target e = Some r\<close> f assms show ?thesis by (simp add: not_due_succeeded)
      qed
    qed
  qed
qed

lemma reachable:
  "Inv (run (ImageLoader limit t) es) \<and> timing_inv (run (ImageLoader limit t) es) \<and>
   loaderTimeout (run (ImageLoader limit t) es) = t"
proof (induction es rule: rev_induct)
  case Nil
  show ?case using Inv_init [of limit t] by (simp add: run_def timing_inv_def ImageLoader_def)
next
  case (snoc e es)
  then show ?case
    using Inv_step [of "run (ImageLoader limit t) es" e]
      timing_step [of "run (ImageLoader limit t) es" e]
    by (simp add: run_snoc)
qed

lemma executing_timing:
  assumes "w = run (ImageLoader limit t) es" "r < length (jobs w)" "executing (jobs w ! r)"
  shows "timeout (jobs w ! r) = t \<and> timer_delay (jobs w ! r) = Some t"
proof -
  have "timing_inv w" "loaderTimeout w = t" using reachable [of limit t es] assms(1) by simp_all
  with assms(2) have "job_timing t (jobs w ! r)" by (simp add: timing_inv_def list_all_length)
  with assms(3) show ?thesis by (auto simp: job_timing_def executing_def)
qed

subsection \<open>The results of single events\<close>

lemma callbacks_completing:
  assumes "Inv w" "r < length (jobs w)" "executing (jobs w ! r)" "incidental ob"
  shows "callbacks_of r (trace (completing r j' ob w)) = [Callback r (image j') (errorMsg j') (request j')]"
proof -
  have nq: "r \<notin> set (jobQueue w)" using not_queued [OF assms(1,2)] assms(3) by simp
  have cb0: "callbacks_of r (trace w) = []"
    using assms(1,2,3) phases_exclusive by (auto simp: Inv_def job_inv_def)
  show ?thesis
  proof (cases "promotes w")
    case True
    then obtain h t where q: "jobQueue w = h # t" by (cases "jobQueue w") (auto simp: promotes_def)
    with nq have "h \<noteq> r" by auto
    from completing_promote(2) [OF True q this assms(2), of j' ob] cb0 assms(4)
    show ?thesis by simp
  next
    case False
    from completing_plain(2) [OF False assms(2), of j' ob] cb0 assms(4)
    show ?thesis by simp
  qed
qed

lemma step_TimerFires_eq:
  assumes "r < length (jobs w)" "executing (jobs w ! r)"
  shows "step w (TimerFires r) =
     completing r (ended False ((jobs w ! r)\<lparr> timer_armed := False, errorMsg :=
        Some (''Image load exceeded timeout ('' @ string_of_int (timeout (jobs w ! r)) @ '' ms)'') \<rparr>)) [] w"
proof -
  let ?j = "jobs w ! r"
  obtain i where i: "image ?j = Some i" using executing_image [OF assms(2)] by blast
  have id: "jobId ?j \<noteq> None" "jobId ?j \<noteq> Some 0" using executing_jobId [OF assms(2)] by simp_all
  have armed: "timer_armed ?j" using assms(2) by (simp add: executing_def)
  show ?thesis
    using armed assms(1) i id
      fail_exec [of r w "?j\<lparr> timer_armed := False \<rparr>" i
          "''Image load exceeded timeout ('' @ string_of_int (timeout ?j) @ '' ms)''"]
    by (simp add: onTimeout_def disarm_def)
qed

lemma step_XhrEmpty_eq:
  assumes "r < length (jobs w)" "executing (jobs w ! r)" "r \<notin> set (jobQueue w)"
    "pending (jobs w ! r) = Some Xhr"
  shows "step w (XhrSuccess r (Some 0) u) =
     completing r (ended False ((jobs w ! r)\<lparr> pending := None,
        errorMsg := Some ''Empty image response.'' \<rparr>)) [Uncaught TypeError] w"
proof -
  let ?j = "jobs w ! r"
  let ?J = "ended False (?j\<lparr> pending := None, errorMsg := Some ''Empty image response.'' \<rparr>)"
  obtain i where i: "image ?j = Some i" using executing_image [OF assms(2)] by blast
  have id: "jobId ?j \<noteq> None" "jobId ?j \<noteq> Some 0" using executing_jobId [OF assms(2)] by simp_all
  have "image ?J = None" by (simp add: ended_def)
  then have "uncaught (set_image_src r u (completing r ?J [] w)) = completing r ?J [Uncaught TypeError] w"
    using src_after_completing [OF assms(1,3)] by blast
  then show ?thesis
    using assms(1,4) i id fail_exec [of r w "?j\<lparr> pending := None \<rparr>" i "''Empty image response.''"]
    by (simp add: xhrSuccess_def consume_def awaiting_def)
qed

lemma step_HubStartFail_eq:
  assumes "r < length (jobs w)" "pending (jobs w ! r) = Some HubStart"
  shows "step w (HubStartFail r) =
     quiet r ((jobs w ! r)\<lparr> pending := None \<rparr>) [ConsoleError ''SignalR could not Connect!''] w"
  using assms by (simp add: awaiting_def consume_def hubStartFail_def quiet_def)

subsection \<open>Jobs removed by \<open>clear\<close>\<close>

lemma dropped_Quiet:
  assumes "dropped w r" "Quiet k w w'" "\<not> created (jobs w ! k)"
  shows "dropped w' r"
proof -
  from assms(2) obtain j' ob where w': "w' = quiet k j' ob w" by (auto simp: Quiet_def)
  from assms(1,3) have "k \<noteq> r" by (auto simp: dropped_def)
  with assms(1) show ?thesis by (simp add: dropped_def w' quiet_def)
qed

lemma dropped_Completing:
  assumes "dropped w r" "Completing k w w'" "k < length (jobs w)"
  shows "dropped w' r"
proof -
  from assms(2) obtain j' ob where w': "w' = completing k j' ob w" and ex: "executing (jobs w ! k)"
    by (auto simp: Completing_def)
  from assms(1) ex phases_exclusive have kr: "k \<noteq> r" by (auto simp: dropped_def)
  show ?thesis
  proof (cases "promotes w")
    case True
    then obtain h t where q: "jobQueue w = h # t" by (cases "jobQueue w") (auto simp: promotes_def)
    with assms(1) have hr: "h \<noteq> r" "r \<notin> set t" by (auto simp: dropped_def)
    have "jobs w' = (jobs w)[k := j', h := start (Suc h) (hubConnected w) ((jobs w)[k := j'] ! h)]"
      "jobQueue w' = t"
      using True q by (simp_all add: w' completing_def completeJob_fields)
    with assms(1) kr hr show ?thesis by (simp add: dropped_def)
  next
    case False
    then have "jobs w' = (jobs w)[k := j']" "jobQueue w' = jobQueue w"
      by (simp_all add: w' completing_def completeJob_fields)
    with assms(1) kr show ?thesis by (simp add: dropped_def)
  qed
qed

lemma dropped_addJob: "dropped w r \<Longrightarrow> dropped (addJob opts w) r"
  by (auto simp: dropped_def addJob_def Let_def startJob_def nth_append)

lemma dropped_step:
  assumes "Inv w" "dropped w r"
  shows "dropped (step w e) r"
proof (cases "target e")
  case None
  then show ?thesis
    using assms(2) by (cases e) (simp_all add: dropped_addJob, simp_all add: dropped_def clear_def)
next
  case (Some k)
  show ?thesis
  proof (cases "k < length (jobs w)")
    case False
    with Some assms show ?thesis by (simp add: not_due_range)
  next
    case True
    with assms have "job_inv w k" by (simp add: Inv_def)
    then consider (c) "created (jobs w ! k)"
      | (x) "executing (jobs w ! k)" "k \<notin> set (jobQueue w)"
      | (f) "finished (jobs w ! k)"
      by (auto simp: job_inv_def)
    then show ?thesis
    proof cases
      case c
      with Some assms show ?thesis by (simp add: not_due_created)
    next
      case x
      then have "\<not> created (jobs w ! k)" using phases_exclusive by auto
      with step_executing [OF Some True x] assms(2) True show ?thesis
        using dropped_Quiet [OF assms(2)] dropped_Completing [OF assms(2)] by auto
    next
      case f
      then have nc: "\<not> created (jobs w ! k)" using phases_exclusive by auto
      show ?thesis
      proof (cases "image (jobs w ! k)")
        case None
        from step_failed [OF Some True f None] assms(2) nc show ?thesis
          using dropped_Quiet [OF assms(2)] by auto
      next
        case (Some i)
        with \<open>target e = Some k\<close> f assms show ?thesis by (simp add: not_due_succeeded)
      qed
    qed
  qed
qed

lemma dropped_run:
  assumes "Inv w" "dropped w r"
  shows "Inv (run w es) \<and> dropped (run w es) r"
proof (induction es rule: rev_induct)
  case Nil
  from assms show ?case by (simp add: run_def)
next
  case (snoc e es)
  then show ?case by (simp add: run_snoc Inv_step dropped_step)
qed

lemma dropped_quiet_forever:
  assumes "Inv w" "dropped w r"
  shows "callbacks_of r (trace w) = []"
  using assms phases_exclusive by (auto simp: Inv_def dropped_def job_inv_def)

lemma clear_drops:
  assumes "Inv w" "r \<in> set (jobQueue w)"
  shows "dropped (clear w) r"
  using assms by (auto simp: Inv_def dropped_def clear_def)

lemma aborts_of_created:
  assumes "\<forall>r \<in> set q. created (js ! r)"
  shows "concat (map (\<lambda>r. call_abort r (abort (js ! r))) q)
           = map AbortHook (filter (\<lambda>r. abort (js ! r) = UserAbort) q)"
  using assms by (induction q) (auto simp: created_def)

lemma finished_event_harmless:
  assumes "Inv w" "r < length (jobs w)" "finished (jobs w ! r)" "target e = Some r"
  shows "callbacks_of k (trace (step w e)) = callbacks_of k (trace w) \<and>
         jobsInProgress (step w e) = jobsInProgress w"
proof (cases "image (jobs w ! r)")
  case None
  from step_failed [OF assms(4,2,3) None] show ?thesis
    by (auto simp: Quiet_def quiet_def)
next
  case (Some i)
  with assms show ?thesis by (simp add: not_due_succeeded)
qed

lemma started_cases:
  assumes "Inv w" "r < length (jobs w)" "jobId (jobs w ! r) \<noteq> None"
  shows "(executing (jobs w ! r) \<and> callbacks_of r (trace w) = []) \<or>
         (finished (jobs w ! r) \<and> length (callbacks_of r (trace w)) = 1)"
  using assms by (auto simp: Inv_def job_inv_def created_def)

lemma at_most_one_callback:
  assumes "Inv w"
  shows "length (callbacks_of r (trace w)) \<le> 1"
proof (cases "r < length (jobs w)")
  case True
  with assms have "job_inv w r" by (simp add: Inv_def)
  then show ?thesis by (auto simp: job_inv_def)
next
  case False
  with assms callbacks_beyond [of "trace w" "length (jobs w)" r] show ?thesis
    by (simp add: Inv_def)
qed

lemma timer_delivers:
  assumes "Inv w" "r < length (jobs w)" "executing (jobs w ! r)"
  shows "callbacks_of r (trace (step w (TimerFires r))) =
     [Callback r None
        (Some (''Image load exceeded timeout ('' @ string_of_int (timeout (jobs w ! r)) @ '' ms)''))
        (request (jobs w ! r))]"
  unfolding step_TimerFires_eq [OF assms(2,3)]
  using callbacks_completing [OF assms, of "[]"] by (simp add: ended_def)

subsection \<open>\<open>indexOf\<close>, \<open>split\<close> and the remainder, characterised\<close>

lemma prefix_iff_take: "prefix xs ys \<longleftrightarrow> take (length xs) ys = xs"
  by (metis append_eq_conv_conj prefix_def take_is_prefix)

lemma indexOf_from_sublist: "indexOf_from n pat s \<noteq> - 1 \<longleftrightarrow> sublist pat s"
proof (induction s arbitrary: n)
  case Nil
  then show ?case by simp
next
  case (Cons c cs)
  show ?case
  proof (cases "take (length pat) (c # cs) = pat")
    case True
    then have "prefix pat (c # cs)" by (simp add: prefix_iff_take)
    with True show ?thesis by (simp add: sublist_Cons_right)
  next
    case False
    then have "\<not> prefix pat (c # cs)" by (simp add: prefix_iff_take)
    with False Cons [of "Suc n"] show ?thesis by (simp add: sublist_Cons_right)
  qed
qed

lemma indexOf_sublist: "indexOf s pat \<noteq> - 1 \<longleftrightarrow> sublist pat s"
  by (simp add: indexOf_def indexOf_from_sublist)

lemma split_from_char:
  "split_from [c] acc s =
     (rev acc @ takeWhile (\<lambda>x. x \<noteq> c) s) #
       (if c \<in> set s then split_from [c] [] (tl (dropWhile (\<lambda>x. x \<noteq> c) s)) else [])"
proof (induction s arbitrary: acc)
  case Nil
  then show ?case by simp
next
  case (Cons x xs)
  show ?case
  proof (cases "x = c")
    case True
    then show ?thesis by simp
  next
    case False
    with Cons [of "x # acc"] show ?thesis by simp
  qed
qed

lemma split_char_first: "at_str (split f [c]) 0 = takeWhile (\<lambda>x. x \<noteq> c) f"
  by (subst split_def, subst split_from_char) (simp add: at_str_def)

lemma split_char_second:
  "at_str (split f [c]) 1 =
     (if c \<in> set f then takeWhile (\<lambda>x. x \<noteq> c) (tl (dropWhile (\<lambda>x. x \<noteq> c) f)) else ''undefined'')"
proof (cases "c \<in> set f")
  case True
  have "split f [c] = takeWhile (\<lambda>x. x \<noteq> c) f # split_from [c] [] (tl (dropWhile (\<lambda>x. x \<noteq> c) f))"
    using True by (subst split_def, subst split_from_char) simp
  moreover have "split_from [c] [] (tl (dropWhile (\<lambda>x. x \<noteq> c) f))
      = takeWhile (\<lambda>x. x \<noteq> c) (tl (dropWhile (\<lambda>x. x \<noteq> c) f)) #
        (if c \<in> set (tl (dropWhile (\<lambda>x. x \<noteq> c) f))
         then split_from [c] [] (tl (dropWhile (\<lambda>x. x \<noteq> c) (tl (dropWhile (\<lambda>x. x \<noteq> c) f)))) else [])"
    by (subst split_from_char) simp
  ultimately show ?thesis using True by (simp add: at_str_def)
next
  case False
  then have "split f [c] = [takeWhile (\<lambda>x. x \<noteq> c) f]"
    by (subst split_def, subst split_from_char) simp
  with False show ?thesis by (simp add: at_str_def)
qed

lemma split_from_nonempty: "split_from sep acc s \<noteq> []"
  by (induction sep acc s rule: split_from.induct) auto

lemma takeWhile_snoc_sep:
  "takeWhile (\<lambda>x. x \<noteq> c) (ys @ [c]) = takeWhile (\<lambda>x. x \<noteq> c) ys"
  by (induction ys) simp_all

lemma takeWhile_snoc_other:
  "x \<noteq> c \<Longrightarrow> takeWhile (\<lambda>x. x \<noteq> c) (ys @ [x]) =
     (if c \<in> set ys then takeWhile (\<lambda>x. x \<noteq> c) ys else ys @ [x])"
  by (induction ys) simp_all

lemma takeWhile_all: "c \<notin> set s \<Longrightarrow> takeWhile (\<lambda>x. x \<noteq> c) (rev s) = rev s"
  by (auto simp: takeWhile_eq_all_conv)

lemma split_char_last_aux:
  "last (split_from [c] acc s) =
     (if c \<in> set s then rev (takeWhile (\<lambda>x. x \<noteq> c) (rev s)) else rev acc @ s)"
proof (induction s arbitrary: acc)
  case Nil
  then show ?case by simp
next
  case (Cons x xs)
  show ?case
  proof (cases "x = c")
    case True
    with Cons [of "[]"] show ?thesis
      by (simp add: split_from_nonempty takeWhile_snoc_sep takeWhile_all)
  next
    case False
    with Cons [of "x # acc"] show ?thesis
      by (simp add: takeWhile_snoc_other)
  qed
qed

lemma split_char_last: "last (split s [c]) = rev (takeWhile (\<lambda>x. x \<noteq> c) (rev s))"
  by (simp add: split_def split_char_last_aux takeWhile_all)

subsection \<open>What \<open>parseInt\<close> returns, and its parity\<close>

lemma bit_length_le_iff: "bit_length n \<le> k \<longleftrightarrow> n < 2 ^ k"
proof (induction k arbitrary: n)
  case 0
  show ?case by (subst bit_length.simps) simp
next
  case (Suc k)
  show ?case
  proof (cases "n \<le> 0")
    case True
    have "(0::int) < 2 ^ Suc k" by simp
    with True have "n < 2 ^ Suc k" by linarith
    with True show ?thesis by (subst bit_length.simps) simp
  next
    case False
    have "n div 2 < 2 ^ k \<longleftrightarrow> n < 2 * 2 ^ k" by linarith
    with False Suc [of "n div 2"] show ?thesis by (subst bit_length.simps) simp
  qed
qed

lemma bit_length_gt_iff: "k < bit_length n \<longleftrightarrow> 2 ^ k \<le> n"
  using bit_length_le_iff [of n k] by linarith

lemma round53_exact:
  assumes "n < 2 ^ 53"
  shows "round53 n = n"
proof -
  have e: "bit_length n - 53 = 0" using assms by (simp add: bit_length_le_iff)
  show ?thesis by (simp add: round53_def e)
qed

lemma nearest_double_exact:
  assumes "\<bar>i\<bar> < 2 ^ 53"
  shows "nearest_double i = Number i"
proof -
  have "\<bar>i\<bar> < 2 ^ 1024" using assms by simp
  then have "\<not> 1024 < bit_length \<bar>i\<bar>" by (simp only: bit_length_gt_iff not_le)
  then show ?thesis using assms by (auto simp: nearest_double_def round53_exact Let_def)
qed

lemma round53_parts:
  assumes "2 ^ 53 \<le> n"
  defines "e \<equiv> bit_length n - 53"
  defines "q \<equiv> n div 2 ^ e"
  defines "r \<equiv> n mod 2 ^ e"
  shows "0 < e" "bit_length n = 53 + e" "n = q * 2 ^ e + r" "0 \<le> r" "r < 2 ^ e"
    "2 ^ 52 \<le> q" "q < 2 ^ 53"
    "round53 n = (if 2 ^ e < 2 * r \<or> (2 * r = 2 ^ e \<and> odd q) then q + 1 else q) * 2 ^ e"
proof -
  have L: "53 < bit_length n" using assms(1) by (simp only: bit_length_gt_iff)
  then show e0: "0 < e" and Le: "bit_length n = 53 + e" by (simp_all add: e_def)
  show n: "n = q * 2 ^ e + r" by (simp only: q_def r_def div_mult_mod_eq)
  show r0: "0 \<le> r" and r1: "r < 2 ^ e" by (simp_all add: r_def)
  have up: "n < 2 ^ (53 + e)" using bit_length_le_iff [of n "53 + e"] Le by simp
  have "52 + e < bit_length n" using Le by simp
  then have lo: "2 ^ (52 + e) \<le> n" by (simp only: bit_length_gt_iff)
  have P: "(0::int) < 2 ^ e" by simp
  show "2 ^ 52 \<le> q"
  proof (rule ccontr)
    assume "\<not> 2 ^ 52 \<le> q"
    then have "q + 1 \<le> 2 ^ 52" by simp
    then have "(q + 1) * 2 ^ e \<le> 2 ^ 52 * 2 ^ e" by (intro mult_right_mono) simp_all
    moreover have "n < (q + 1) * 2 ^ e" using n r1 by (simp add: algebra_simps)
    ultimately show False using lo unfolding power_add by linarith
  qed
  show "q < 2 ^ 53"
  proof (rule ccontr)
    assume "\<not> q < 2 ^ 53"
    then have "2 ^ 53 * 2 ^ e \<le> q * 2 ^ e" by (intro mult_right_mono) simp_all
    then show False using up n r0 unfolding power_add by linarith
  qed
  show "round53 n = (if 2 ^ e < 2 * r \<or> (2 * r = 2 ^ e \<and> odd q) then q + 1 else q) * 2 ^ e"
    by (simp add: round53_def e_def q_def r_def Let_def)
qed

lemma round53_even:
  assumes "2 ^ 53 \<le> n"
  shows "even (round53 n)"
proof -
  from round53_parts(1) [OF assms] have "even ((2::int) ^ (bit_length n - 53))" by simp
  then show ?thesis unfolding round53_parts(8) [OF assms] by simp
qed

lemma round53_overflow:
  assumes "2 ^ 53 \<le> n"
  shows "2 ^ 1024 \<le> round53 n \<longleftrightarrow> 2 ^ 1024 - 2 ^ 970 \<le> n"
proof -
  define e where "e = bit_length n - 53"
  define q where "q = n div 2 ^ e"
  define r where "r = n mod 2 ^ e"
  define q' where "q' = (if 2 ^ e < 2 * r \<or> (2 * r = 2 ^ e \<and> odd q) then q + 1 else q)"
  note p = round53_parts [OF assms, folded e_def q_def r_def]
  have v: "round53 n = q' * 2 ^ e" using p(8) by (simp add: q'_def)
  have q'1: "q \<le> q'" and q'2: "q' \<le> q + 1" by (simp_all add: q'_def)
  have lo: "2 ^ 52 * 2 ^ e \<le> q' * 2 ^ e"
    using p(6) q'1 by (intro mult_right_mono) simp_all
  have hi: "q' * 2 ^ e \<le> 2 ^ 53 * 2 ^ e"
    using p(7) q'2 by (intro mult_right_mono) simp_all
  have nlo: "2 ^ 52 * 2 ^ e \<le> n"
  proof -
    have "2 ^ 52 * 2 ^ e \<le> q * 2 ^ e" using p(6) by (intro mult_right_mono) simp_all
    with p(3,4) show ?thesis by linarith
  qed
  have nhi: "n < 2 ^ 53 * 2 ^ e"
  proof -
    have "(q + 1) * 2 ^ e \<le> 2 ^ 53 * 2 ^ e" using p(7) by (intro mult_right_mono) simp_all
    moreover have "n < (q + 1) * 2 ^ e" using p(3,5) by (simp add: algebra_simps)
    ultimately show ?thesis by linarith
  qed
  consider "e < 971" | "e = 971" | "971 < e" by linarith
  then show ?thesis
  proof cases
    case 1
    then have "(2::int) ^ e \<le> 2 ^ 970" by (intro power_increasing) simp_all
    then have s: "(2::int) ^ 53 * 2 ^ e \<le> 2 ^ 53 * 2 ^ 970" by (intro mult_left_mono) simp_all
    have "q' * 2 ^ e \<le> 2 ^ 53 * 2 ^ e" by (rule hi)
    also have "\<dots> \<le> 2 ^ 53 * 2 ^ 970" by (rule s)
    also have "\<dots> < 2 ^ 1024" by simp
    finally have a: "\<not> 2 ^ 1024 \<le> round53 n" by (simp only: v not_le)
    have "n < 2 ^ 53 * 2 ^ e" by (rule nhi)
    also have "\<dots> \<le> 2 ^ 53 * 2 ^ 970" by (rule s)
    also have "\<dots> < 2 ^ 1024 - 2 ^ 970" by simp
    finally have b: "\<not> 2 ^ 1024 - 2 ^ 970 \<le> n" by (simp only: not_le)
    from a b show ?thesis by blast
  next
    case 2
    have P: "(2::int) ^ e = 2 * 2 ^ 970" using 2 by simp
    show ?thesis
    proof
      assume "2 ^ 1024 \<le> round53 n"
      then have a: "2 ^ 54 * 2 ^ 970 \<le> q' * (2 * 2 ^ 970)" by (simp add: v P)
      have "2 ^ 53 \<le> q'"
      proof (rule ccontr)
        assume "\<not> 2 ^ 53 \<le> q'"
        then have "q' \<le> 2 ^ 53 - 1" by simp
        then have "q' * (2 * 2 ^ 970) \<le> (2 ^ 53 - 1) * (2 * 2 ^ 970)"
          by (intro mult_right_mono) simp_all
        with a show False by simp
      qed
      with p(7) have up: "q' = q + 1" and q: "q = 2 ^ 53 - 1" using q'2 by simp_all
      from up have "2 ^ e < 2 * r \<or> (2 * r = 2 ^ e \<and> odd q)" by (simp add: q'_def split: if_splits)
      then have "2 ^ 970 \<le> r" by (auto simp: P)
      with p(3) q show "2 ^ 1024 - 2 ^ 970 \<le> n" by (simp add: P)
    next
      assume b: "2 ^ 1024 - 2 ^ 970 \<le> n"
      have q: "q = 2 ^ 53 - 1"
      proof (rule ccontr)
        assume "q \<noteq> 2 ^ 53 - 1"
        with p(7) have "q + 1 \<le> 2 ^ 53 - 1" by simp
        then have "(q + 1) * (2 * 2 ^ 970) \<le> (2 ^ 53 - 1) * (2 * 2 ^ 970)"
          by (intro mult_right_mono) simp_all
        moreover have "n < (q + 1) * (2 * 2 ^ 970)" using p(3,5) by (simp add: algebra_simps P)
        ultimately show False using b by simp
      qed
      then have "odd q" by simp
      moreover have "2 ^ 970 \<le> r" using b p(3) q by (simp add: P)
      ultimately have "q' = q + 1" by (auto simp: q'_def P)
      with q show "2 ^ 1024 \<le> round53 n" by (simp add: v P)
    qed
  next
    case 3
    then have "(2::int) ^ 972 \<le> 2 ^ e" by (intro power_increasing) simp_all
    then have s: "(2::int) ^ 52 * 2 ^ 972 \<le> 2 ^ 52 * 2 ^ e" by (intro mult_left_mono) simp_all
    have "(2::int) ^ 1024 \<le> 2 ^ 52 * 2 ^ 972" by simp
    also have "\<dots> \<le> 2 ^ 52 * 2 ^ e" by (rule s)
    also have "\<dots> \<le> q' * 2 ^ e" by (rule lo)
    finally have a: "2 ^ 1024 \<le> round53 n" by (simp only: v)
    have "(2::int) ^ 1024 - 2 ^ 970 \<le> 2 ^ 52 * 2 ^ 972" by simp
    also have "\<dots> \<le> 2 ^ 52 * 2 ^ e" by (rule s)
    also have "\<dots> \<le> n" by (rule nlo)
    finally have b: "2 ^ 1024 - 2 ^ 970 \<le> n" .
    from a b show ?thesis by blast
  qed
qed

lemma rem2_is_0_even: "rem2_is_0 x = (case x of Number a \<Rightarrow> even a | _ \<Rightarrow> False)"
  by (cases x) (auto simp: rem2_is_0_def js_rem_def sgn_if)

lemma rem2_is_0_nearest_double:
  "rem2_is_0 (nearest_double i) = (if \<bar>i\<bar> < 2 ^ 53 then even i else \<bar>i\<bar> < 2 ^ 1024 - 2 ^ 970)"
proof (cases "\<bar>i\<bar> < 2 ^ 53")
  case True
  then show ?thesis by (simp add: nearest_double_exact rem2_is_0_even)
next
  case False
  then have big: "2 ^ 53 \<le> \<bar>i\<bar>" by simp
  define v where "v = round53 \<bar>i\<bar>"
  have ov: "1024 < bit_length v \<longleftrightarrow> 2 ^ 1024 - 2 ^ 970 \<le> \<bar>i\<bar>"
    by (simp only: v_def bit_length_gt_iff round53_overflow [OF big])
  have ev: "even v" unfolding v_def by (rule round53_even [OF big])
  have nd: "nearest_double i =
      (if 1024 < bit_length v then (if i < 0 then NegInfinity else PosInfinity)
       else Number (if i < 0 then - v else v))"
    by (simp add: nearest_double_def v_def Let_def)
  have "rem2_is_0 (nearest_double i) = (\<not> 1024 < bit_length v)"
    using ev by (simp add: nd rem2_is_0_even)
  also have "\<dots> = (\<bar>i\<bar> < 2 ^ 1024 - 2 ^ 970)" unfolding ov by (simp only: not_le)
  finally show ?thesis using False by (simp only: if_False)
qed

lemma rem2_is_0_parseInt: "rem2_is_0 (parseInt tok) = even_token tok"
proof (cases "leading_integer tok")
  case None
  then show ?thesis by (simp add: parseInt_def even_token_def rem2_is_0_even)
next
  case (Some i)
  then show ?thesis by (simp only: parseInt_def even_token_def option.case rem2_is_0_nearest_double)
qed

subsection \<open>The multi-server rule\<close>

lemma multiServerSrc_char:
  "multiServerSrc servers s =
     (if sublist ''labels_'' s \<or> sublist ''predictions_'' s then s
      else at_str servers (endpoint_index s) @ s)"
proof -
  have s1: "indexOf s ''labels_'' \<noteq> - 1 \<longleftrightarrow> sublist ''labels_'' s"
    and s2: "indexOf s ''predictions_'' \<noteq> - 1 \<longleftrightarrow> sublist ''predictions_'' s"
    by (rule indexOf_sublist)+
  have fn: "last (split s ''/'') = file_name s"
    by (simp add: split_char_last file_name_def)
  have c0: "at_str (split (stem (file_name s)) ''_'') 0 = col_token (stem (file_name s))"
    by (simp add: split_char_first col_token_def)
  have c1: "at_str (split (stem (file_name s)) ''_'') 1 = row_token (stem (file_name s))"
    by (simp only: split_char_second row_token_def)
  show ?thesis
    unfolding multiServerSrc_def s1 s2 fn stem_def [symmetric] Let_def c0 c1
    by (simp add: endpoint_index_def name_index_def stem_def rem2_is_0_parseInt Let_def)
qed

lemma file_name_append:
  assumes "CHR ''/'' \<notin> set f"
  shows "file_name (dir @ CHR ''/'' # f) = f"
proof -
  have "takeWhile (\<lambda>c. c \<noteq> CHR ''/'') (rev f @ CHR ''/'' # rev dir)
      = rev f @ takeWhile (\<lambda>c. c \<noteq> CHR ''/'') (CHR ''/'' # rev dir)"
    using assms by (intro takeWhile_append2) auto
  then show ?thesis by (simp add: file_name_def)
qed

subsection \<open>Evaluating the model on concrete runs\<close>

lemmas model_defs =
  run_def ImageLoader_def addJob_def has_capacity_def startJob_def ImageJob_def start_def
  clear_def completeJob_def set_job_def finishJob_def finish_def fail_with_def set_image_src_def
  onload_def onerror_def onTimeout_def getTileDone_def getTileFail_def hubStartDone_def
  hubStartFail_def xhrSuccess_def xhrError_def image_due_def uncaught_def consume_def disarm_def
  awaiting_def string_of_int_def
  directRequest_def ajaxRequest_def signalRRequest_def multiServerRequest_def
  created_def executing_def finished_def Let_def

section \<open>The claims\<close>

text \<open>
  In what follows a reachable loader is \<open>run (ImageLoader limit t) es\<close>: a fresh loader
  after any sequence \<open>es\<close> of submissions, clears and runtime events.
\<close>

subsection \<open>C1: the counter stays within the limit\<close>

text \<open>
  \<^bold>\<open>C1.\<close> With a positive limit, after any sequence of submissions, clears and
  runtime events on a fresh loader, \<open>jobsInProgress\<close> is the number of jobs that are
  executing and is at most \<open>jobLimit\<close>. Inside \<open>addJob\<close> and \<open>completeJob\<close> the counter
  only takes values between the one before and the one after the call (it is
  raised once, or lowered once and then possibly raised once), so the bound holds
  at every instant.
\<close>

theorem C1_in_progress_within_limit:
  assumes "0 < limit"
  shows "jobsInProgress (run (ImageLoader limit t) es)
           = int (length (filter executing (jobs (run (ImageLoader limit t) es)))) \<and>
         jobsInProgress (run (ImageLoader limit t) es) \<le> limit"
proof -
  have "jobsInProgress (run (ImageLoader limit t) es) \<le> jobLimit (ImageLoader limit t)"
    using assms by (intro run_bound) (simp_all add: ImageLoader_def)
  then show ?thesis
    using count_executing [OF Inv_reachable, of limit t es] by (simp add: ImageLoader_def)
qed

theorem C1_witness:
  "(0::int) < 2 \<and>
   jobsInProgress (run (ImageLoader 2 30000)
      [AddJob (directRequest ''a''), AddJob (directRequest ''b''), AddJob (directRequest ''c''),
       ImageLoad 0]) = 2 \<and>
   jobsInProgress (run (ImageLoader 2 30000)
      [AddJob (directRequest ''a''), AddJob (directRequest ''b''), AddJob (directRequest ''c''),
       ImageLoad 0]) \<le> 2"
proof -
  let ?es = "[AddJob (directRequest ''a''), AddJob (directRequest ''b''), AddJob (directRequest ''c''),
       ImageLoad 0]"
  have p: "(0::int) < 2" by simp
  have n: "jobsInProgress (run (ImageLoader 2 30000) ?es) = 2" by (simp add: model_defs)
  note c = C1_in_progress_within_limit [OF p, of 30000 ?es]
  show ?thesis by (intro conjI p n c [THEN conjunct2])
qed

subsection \<open>C2: one callback per started job\<close>

text \<open>
  \<^bold>\<open>C2.\<close> In every reachable loader: no job has been called back more than once;
  every callback carries either an image and no message or no image and a message;
  a job on which \<open>start\<close> has run either is executing, has not been called back and is
  called back exactly once as soon as its timer fires, or is finished and has been
  called back exactly once; and an event for a finished job (a late transport
  callback; its timer is cleared and its image handlers are removed) adds no callback
  for any job and leaves \<open>jobsInProgress\<close> as it is.
\<close>

theorem C2_callback_exactly_once:
  assumes "w = run (ImageLoader limit t) es"
  shows "(\<forall>r. length (callbacks_of r (trace w)) \<le> 1) \<and>
         (\<forall>x \<in> set (trace w). well_reported x) \<and>
         (\<forall>r. r < length (jobs w) \<and> jobId (jobs w ! r) \<noteq> None \<longrightarrow>
            (executing (jobs w ! r) \<and> callbacks_of r (trace w) = [] \<and>
             length (callbacks_of r (trace (step w (TimerFires r)))) = 1) \<or>
            (finished (jobs w ! r) \<and> length (callbacks_of r (trace w)) = 1)) \<and>
         (\<forall>r e k. r < length (jobs w) \<and> finished (jobs w ! r) \<and> target e = Some r \<longrightarrow>
            callbacks_of k (trace (step w e)) = callbacks_of k (trace w) \<and>
            jobsInProgress (step w e) = jobsInProgress w)"
proof -
  have inv: "Inv w" using assms Inv_reachable by simp
  have a: "\<forall>r. length (callbacks_of r (trace w)) \<le> 1"
    using at_most_one_callback [OF inv] by blast
  have b: "\<forall>x \<in> set (trace w). well_reported x"
    using inv by (simp add: Inv_def)
  have c: "\<forall>r. r < length (jobs w) \<and> jobId (jobs w ! r) \<noteq> None \<longrightarrow>
            (executing (jobs w ! r) \<and> callbacks_of r (trace w) = [] \<and>
             length (callbacks_of r (trace (step w (TimerFires r)))) = 1) \<or>
            (finished (jobs w ! r) \<and> length (callbacks_of r (trace w)) = 1)"
  proof (intro allI impI)
    fix r assume r: "r < length (jobs w) \<and> jobId (jobs w ! r) \<noteq> None"
    from started_cases [OF inv] r
    consider "executing (jobs w ! r)" "callbacks_of r (trace w) = []"
      | "finished (jobs w ! r)" "length (callbacks_of r (trace w)) = 1"
      by blast
    then show "(executing (jobs w ! r) \<and> callbacks_of r (trace w) = [] \<and>
             length (callbacks_of r (trace (step w (TimerFires r)))) = 1) \<or>
            (finished (jobs w ! r) \<and> length (callbacks_of r (trace w)) = 1)"
    proof cases
      case 1
      with r timer_delivers [OF inv, of r] show ?thesis by (simp del: step.simps)
    next
      case 2
      then show ?thesis by simp
    qed
  qed
  have d: "\<forall>r e k. r < length (jobs w) \<and> finished (jobs w ! r) \<and> target e = Some r \<longrightarrow>
            callbacks_of k (trace (step w e)) = callbacks_of k (trace w) \<and>
            jobsInProgress (step w e) = jobsInProgress w"
    using finished_event_harmless [OF inv] by blast
  from a b c d show ?thesis by (intro conjI)
qed

theorem C2_witness:
  "finished (jobs (run (ImageLoader 1 30000)
       [AddJob (ajaxRequest ''a.png''), AddJob (directRequest ''b.png''), TimerFires 0]) ! 0) \<and>
   target (XhrError 0) = Some 0 \<and>
   callbacks_of 0 (trace (step (run (ImageLoader 1 30000)
       [AddJob (ajaxRequest ''a.png''), AddJob (directRequest ''b.png''), TimerFires 0]) (XhrError 0)))
     = callbacks_of 0 (trace (run (ImageLoader 1 30000)
       [AddJob (ajaxRequest ''a.png''), AddJob (directRequest ''b.png''), TimerFires 0])) \<and>
   jobsInProgress (step (run (ImageLoader 1 30000)
       [AddJob (ajaxRequest ''a.png''), AddJob (directRequest ''b.png''), TimerFires 0]) (XhrError 0))
     = jobsInProgress (run (ImageLoader 1 30000)
       [AddJob (ajaxRequest ''a.png''), AddJob (directRequest ''b.png''), TimerFires 0]) \<and>
   length (callbacks_of 0 (trace (run (ImageLoader 1 30000)
       [AddJob (ajaxRequest ''a.png''), AddJob (directRequest ''b.png''), TimerFires 0]))) \<le> 1"
proof -
  let ?w = "run (ImageLoader 1 30000)
       [AddJob (ajaxRequest ''a.png''), AddJob (directRequest ''b.png''), TimerFires 0]"
  have h0: "0 < length (jobs ?w) \<and> finished (jobs ?w ! 0) \<and> target (XhrError 0) = Some 0"
    by (simp add: model_defs)
  note c = C2_callback_exactly_once [OF refl, of 1 30000
       "[AddJob (ajaxRequest ''a.png''), AddJob (directRequest ''b.png''), TimerFires 0]"]
  note a = c [THEN conjunct1, rule_format, of 0]
  note d = c [THEN conjunct2, THEN conjunct2, THEN conjunct2, rule_format, OF h0, of 0]
  note f1 = h0 [THEN conjunct2, THEN conjunct1]
  note f2 = h0 [THEN conjunct2, THEN conjunct2]
  show ?thesis by (intro conjI f1 f2 d [THEN conjunct1] d [THEN conjunct2] a)
qed

subsection \<open>C3: a submission starts or queues\<close>

text \<open>
  \<^bold>\<open>C3.\<close> \<open>addJob\<close> creates the job and, when \<open>jobLimit\<close> is \<open>0\<close> or \<open>jobsInProgress\<close>
  is below it, starts the job at once (it is then executing, and the start is
  observed) and raises \<open>jobsInProgress\<close> by one, leaving the queue alone; otherwise
  it appends the job, not started, to the end of \<open>jobQueue\<close> and changes nothing
  else. \<open>addJob\<close> returns nothing: the new loader state is all there is.
\<close>

theorem C3_addJob_starts_or_queues:
  "addJob options w =
     (if jobLimit w = 0 \<or> jobsInProgress w < jobLimit w
      then w\<lparr> jobs := jobs w @ [start (Suc (length (jobs w))) (hubConnected w)
                                    (ImageJob options (loaderTimeout w))],
               trace := trace w @ [TileLoadStart (length (jobs w)) (src options)],
               jobsInProgress := jobsInProgress w + 1 \<rparr>
      else w\<lparr> jobs := jobs w @ [ImageJob options (loaderTimeout w)],
               jobQueue := jobQueue w @ [length (jobs w)] \<rparr>) \<and>
   executing (start (Suc (length (jobs w))) (hubConnected w) (ImageJob options (loaderTimeout w))) \<and>
   created (ImageJob options (loaderTimeout w))"
proof -
  have "src (ImageJob options (loaderTimeout w)) = src options"
    by (simp add: ImageJob_def)
  then show ?thesis
    by (simp add: addJob_def has_capacity_def startJob_def Let_def executing_start)
qed

theorem C3_witness:
  "jobsInProgress (addJob (directRequest ''c'')
      (run (ImageLoader 2 30000) [AddJob (directRequest ''a''), AddJob (directRequest ''b'')])) = 2 \<and>
   jobQueue (addJob (directRequest ''c'')
      (run (ImageLoader 2 30000) [AddJob (directRequest ''a''), AddJob (directRequest ''b'')])) = [2] \<and>
   jobsInProgress (addJob (directRequest ''a'') (ImageLoader 2 30000)) = 1 \<and>
   jobQueue (addJob (directRequest ''a'') (ImageLoader 2 30000)) = []"
proof -
  let ?w = "run (ImageLoader 2 30000) [AddJob (directRequest ''a''), AddJob (directRequest ''b'')]"
  have full: "\<not> (jobLimit ?w = 0 \<or> jobsInProgress ?w < jobLimit ?w)" "jobsInProgress ?w = 2"
    "jobQueue ?w = []" "length (jobs ?w) = 2"
    by (simp_all add: model_defs)
  have free: "jobLimit (ImageLoader 2 30000) = 0 \<or>
      jobsInProgress (ImageLoader 2 30000) < jobLimit (ImageLoader 2 30000)"
    "jobsInProgress (ImageLoader 2 30000) = 0" "jobQueue (ImageLoader 2 30000) = []"
    by (simp_all add: ImageLoader_def)
  note c1 = C3_addJob_starts_or_queues [of "directRequest ''c''" ?w, THEN conjunct1]
  note c2 = C3_addJob_starts_or_queues [of "directRequest ''a''" "ImageLoader 2 30000", THEN conjunct1]
  have a: "jobsInProgress (addJob (directRequest ''c'') ?w) = 2 \<and>
      jobQueue (addJob (directRequest ''c'') ?w) = [2]"
    unfolding c1 using full by simp
  have b: "jobsInProgress (addJob (directRequest ''a'') (ImageLoader 2 30000)) = 1 \<and>
      jobQueue (addJob (directRequest ''a'') (ImageLoader 2 30000)) = []"
    unfolding c2 using free by simp
  show ?thesis by (intro conjI a [THEN conjunct1] a [THEN conjunct2] b [THEN conjunct1] b [THEN conjunct2])
qed

subsection \<open>C4: promotion comes before the callback, in order of submission\<close>

text \<open>
  \<^bold>\<open>C4.\<close> \<open>completeJob\<close> lowers \<open>jobsInProgress\<close>; if there is then capacity and the
  queue is not empty it removes the head of the queue, starts it and raises the
  counter again; the caller's callback for the finished job is the last observation
  it adds, after the start of the promoted job. In every reachable loader the jobs
  started so far followed by the jobs still queued are in strictly increasing order
  of their creation index, that is, in order of submission: jobs start first in,
  first out.
\<close>

theorem C4_promotion_before_callback_fifo:
  "trace (completeJob r w) =
     trace w @ (if promotes w then [TileLoadStart (hd (jobQueue w)) (src (jobs w ! hd (jobQueue w)))] else [])
       @ [Callback r (image (jobs (completeJob r w) ! r)) (errorMsg (jobs (completeJob r w) ! r))
            (request (jobs (completeJob r w) ! r))] \<and>
   jobQueue (completeJob r w) = (if promotes w then tl (jobQueue w) else jobQueue w) \<and>
   jobsInProgress (completeJob r w) = (if promotes w then jobsInProgress w else jobsInProgress w - 1) \<and>
   jobs (completeJob r w) =
     (if promotes w
      then (jobs w)[hd (jobQueue w) := start (Suc (hd (jobQueue w))) (hubConnected w) (jobs w ! hd (jobQueue w))]
      else jobs w) \<and>
   sorted_wrt (<) (started_refs (trace (run (ImageLoader limit t) es)) @ jobQueue (run (ImageLoader limit t) es))"
  using Inv_reachable [of limit t es]
  by (simp add: completeJob_fields completeJob_trace Inv_def)

theorem C4_witness:
  "trace (run (ImageLoader 2 30000)
      [AddJob (directRequest ''a.png''), AddJob (directRequest ''b.png''), AddJob (directRequest ''c.png''),
       ImageLoad 0])
     = [TileLoadStart 0 ''a.png'', TileLoadStart 1 ''b.png'', TileLoadStart 2 ''c.png'',
        Callback 0 (Some \<lparr> img_src = Some ''a.png'', crossOrigin = None, handlers = False \<rparr>) None False] \<and>
   jobsInProgress (run (ImageLoader 2 30000)
      [AddJob (directRequest ''a.png''), AddJob (directRequest ''b.png''), AddJob (directRequest ''c.png''),
       ImageLoad 0]) = 2 \<and>
   sorted_wrt (<) (started_refs (trace (run (ImageLoader 2 30000)
      [AddJob (directRequest ''a.png''), AddJob (directRequest ''b.png''), AddJob (directRequest ''c.png''),
       ImageLoad 0])) @ jobQueue (run (ImageLoader 2 30000)
      [AddJob (directRequest ''a.png''), AddJob (directRequest ''b.png''), AddJob (directRequest ''c.png''),
       ImageLoad 0]))"
proof -
  let ?es = "[AddJob (directRequest ''a.png''), AddJob (directRequest ''b.png''),
      AddJob (directRequest ''c.png''), ImageLoad 0]"
  have t: "trace (run (ImageLoader 2 30000) ?es)
     = [TileLoadStart 0 ''a.png'', TileLoadStart 1 ''b.png'', TileLoadStart 2 ''c.png'',
        Callback 0 (Some \<lparr> img_src = Some ''a.png'', crossOrigin = None, handlers = False \<rparr>) None False]"
    by (simp add: model_defs)
  have n: "jobsInProgress (run (ImageLoader 2 30000) ?es) = 2"
    by (simp add: model_defs)
  note c = C4_promotion_before_callback_fifo [of 0 "ImageLoader 2 30000" 2 30000 ?es]
  note s = c [THEN conjunct2, THEN conjunct2, THEN conjunct2, THEN conjunct2]
  show ?thesis by (intro conjI t n s)
qed

subsection \<open>C5: \<open>clear\<close> touches the queue only\<close>

text \<open>
  \<^bold>\<open>C5.\<close> In every reachable loader, \<open>clear\<close> calls the abort hook of each queued job
  that has one, in queue order, and empties the queue. It changes neither
  \<open>jobsInProgress\<close> nor any job: the queued jobs are all jobs that were never
  started, and the started ones keep their timers and handlers.
\<close>

theorem C5_clear_aborts_queued_only:
  assumes "w = run (ImageLoader limit t) es"
  shows "clear w = w\<lparr> trace := trace w @ map AbortHook (filter (\<lambda>r. abort (jobs w ! r) = UserAbort) (jobQueue w)),
                      jobQueue := [] \<rparr> \<and>
         jobQueue (clear w) = [] \<and> jobsInProgress (clear w) = jobsInProgress w \<and>
         jobs (clear w) = jobs w \<and>
         list_all (\<lambda>r. created (jobs w ! r)) (jobQueue w)"
proof -
  have inv: "Inv w" using assms Inv_reachable by simp
  then have q: "\<forall>r \<in> set (jobQueue w). created (jobs w ! r)" by (simp add: Inv_def)
  from aborts_of_created [OF q] q show ?thesis by (simp add: clear_def list_all_iff)
qed

theorem C5_witness:
  "jobQueue (run (ImageLoader 1 30000) [AddJob (directRequest ''a.png''), AddJob (directRequest ''b.png''),
      AddJob ((directRequest ''c.png'')\<lparr> abort_opt := False \<rparr>)]) = [1, 2] \<and>
   trace (clear (run (ImageLoader 1 30000) [AddJob (directRequest ''a.png''), AddJob (directRequest ''b.png''),
      AddJob ((directRequest ''c.png'')\<lparr> abort_opt := False \<rparr>)])) = [TileLoadStart 0 ''a.png'', AbortHook 1] \<and>
   jobQueue (clear (run (ImageLoader 1 30000) [AddJob (directRequest ''a.png''), AddJob (directRequest ''b.png''),
      AddJob ((directRequest ''c.png'')\<lparr> abort_opt := False \<rparr>)])) = [] \<and>
   jobsInProgress (clear (run (ImageLoader 1 30000) [AddJob (directRequest ''a.png''), AddJob (directRequest ''b.png''),
      AddJob ((directRequest ''c.png'')\<lparr> abort_opt := False \<rparr>)]))
     = jobsInProgress (run (ImageLoader 1 30000) [AddJob (directRequest ''a.png''), AddJob (directRequest ''b.png''),
      AddJob ((directRequest ''c.png'')\<lparr> abort_opt := False \<rparr>)])"
proof -
  let ?es = "[AddJob (directRequest ''a.png''), AddJob (directRequest ''b.png''),
      AddJob ((directRequest ''c.png'')\<lparr> abort_opt := False \<rparr>)]"
  have q: "jobQueue (run (ImageLoader 1 30000) ?es) = [1, 2]"
    by (simp add: model_defs)
  have t: "trace (clear (run (ImageLoader 1 30000) ?es)) = [TileLoadStart 0 ''a.png'', AbortHook 1]"
    by (simp add: model_defs)
  note c = C5_clear_aborts_queued_only [OF refl, of 1 30000 ?es]
  note e = c [THEN conjunct2, THEN conjunct1]
  note n = c [THEN conjunct2, THEN conjunct2, THEN conjunct1]
  show ?thesis by (intro conjI q t e n)
qed

subsection \<open>C6: the timeout\<close>

text \<open>
  \<^bold>\<open>C6\<close>, as stated, fails: a submission that carries a timeout of \<open>100\<close>, made to a
  loader whose timeout is \<open>30000\<close>, gets a timer of \<open>30000\<close> ms, and when the timer fires
  the message is \<open>Image load exceeded timeout (30000 ms)\<close>, not \<open>timeout\<close>.
\<close>

theorem C6_counterexample:
  "timer_delay (jobs (run (ImageLoader 2 30000)
       [AddJob ((directRequest ''tile.png'')\<lparr> timeout_opt := Some 100 \<rparr>)]) ! 0) = Some 30000 \<and>
   callbacks_of 0 (trace (run (ImageLoader 2 30000)
       [AddJob ((directRequest ''tile.png'')\<lparr> timeout_opt := Some 100 \<rparr>), TimerFires 0]))
     = [Callback 0 None (Some ''Image load exceeded timeout (30000 ms)'') False] \<and>
   callbacks_of 0 (trace (run (ImageLoader 2 30000)
       [AddJob ((directRequest ''tile.png'')\<lparr> timeout_opt := Some 100 \<rparr>), TimerFires 0]))
     \<noteq> [Callback 0 None (Some ''timeout'') False]"
  by (simp add: model_defs callbacks_of_def)

text \<open>
  \<^bold>\<open>C6, amended.\<close> The timeout belongs to the loader: \<open>addJob\<close> gives every job the
  loader's \<open>timeout\<close> and does not read a timeout from the submission. In a
  reachable loader created with timeout \<open>t\<close>, every executing job has its timer set
  to \<open>t\<close>, and when that timer fires the job is called back once, with no image and
  the message \<open>Image load exceeded timeout (t ms)\<close>.
\<close>

theorem C6_timeout_is_loader_wide:
  assumes "w = run (ImageLoader limit t) es" "r < length (jobs w)" "executing (jobs w ! r)"
  shows "timer_delay (jobs w ! r) = Some t \<and>
         callbacks_of r (trace (step w (TimerFires r))) =
           [Callback r None (Some (''Image load exceeded timeout ('' @ string_of_int t @ '' ms)''))
              (request (jobs w ! r))] \<and>
         addJob (options\<lparr> timeout_opt := x \<rparr>) w = addJob options w"
proof -
  have inv: "Inv w" using assms Inv_reachable by simp
  from executing_timing [OF assms] timer_delivers [OF inv assms(2,3)]
  show ?thesis by (simp add: addJob_def ImageJob_def)
qed

theorem C6_witness:
  "executing (jobs (run (ImageLoader 2 100) [AddJob (directRequest ''tile.png'')]) ! 0) \<and>
   timer_delay (jobs (run (ImageLoader 2 100) [AddJob (directRequest ''tile.png'')]) ! 0) = Some 100 \<and>
   callbacks_of 0 (trace (step (run (ImageLoader 2 100) [AddJob (directRequest ''tile.png'')]) (TimerFires 0)))
     = [Callback 0 None (Some (''Image load exceeded timeout ('' @ string_of_int 100 @ '' ms)''))
          (request (jobs (run (ImageLoader 2 100) [AddJob (directRequest ''tile.png'')]) ! 0))] \<and>
   string_of_int 100 = ''100''"
proof -
  let ?w = "run (ImageLoader 2 100) [AddJob (directRequest ''tile.png'')]"
  have h: "0 < length (jobs ?w)" "executing (jobs ?w ! 0)"
    by (simp_all add: model_defs)
  have v: "string_of_int 100 = ''100''" by (simp add: string_of_int_def)
  note c = C6_timeout_is_loader_wide [OF refl h, where options = "directRequest ''x''" and x = None]
  show ?thesis by (intro conjI h(2) c [THEN conjunct1] c [THEN conjunct2, THEN conjunct1] v)
qed

subsection \<open>C7: an empty AJAX response\<close>

text \<open>
  \<^bold>\<open>C7\<close>, as stated, fails on the wording of the message: the code reports
  \<open>Empty image response.\<close>, not \<open>empty response\<close>.
\<close>

theorem C7_counterexample:
  "callbacks_of 0 (trace (run (ImageLoader 2 30000)
       [AddJob (ajaxRequest ''tile.png''), XhrSuccess 0 (Some 0) ''blob:0'']))
     = [Callback 0 None (Some ''Empty image response.'') True] \<and>
   callbacks_of 0 (trace (run (ImageLoader 2 30000)
       [AddJob (ajaxRequest ''tile.png''), XhrSuccess 0 (Some 0) ''blob:0'']))
     \<noteq> [Callback 0 None (Some ''empty response'') True]"
  by (simp add: model_defs callbacks_of_def)

text \<open>
  \<^bold>\<open>C7, amended.\<close> When the response of an executing AJAX job wraps into a blob of
  size \<open>0\<close>, the job is called back once, with no image and the message
  \<open>Empty image response.\<close>
\<close>

theorem C7_empty_response_message:
  assumes "w = run (ImageLoader limit t) es" "r < length (jobs w)" "executing (jobs w ! r)"
    "pending (jobs w ! r) = Some Xhr"
  shows "callbacks_of r (trace (step w (XhrSuccess r (Some 0) u))) =
           [Callback r None (Some ''Empty image response.'') (request (jobs w ! r))]"
proof -
  have inv: "Inv w" using assms Inv_reachable by simp
  have nq: "r \<notin> set (jobQueue w)" using not_queued [OF inv assms(2)] assms(3) by simp
  show ?thesis
    unfolding step_XhrEmpty_eq [OF assms(2,3) nq assms(4)]
    using callbacks_completing [OF inv assms(2,3), of "[Uncaught TypeError]"]
    by (simp add: ended_def)
qed

theorem C7_witness:
  "executing (jobs (run (ImageLoader 2 30000) [AddJob (ajaxRequest ''tile.png'')]) ! 0) \<and>
   pending (jobs (run (ImageLoader 2 30000) [AddJob (ajaxRequest ''tile.png'')]) ! 0) = Some Xhr \<and>
   request (jobs (run (ImageLoader 2 30000) [AddJob (ajaxRequest ''tile.png'')]) ! 0) = True \<and>
   callbacks_of 0 (trace (step (run (ImageLoader 2 30000) [AddJob (ajaxRequest ''tile.png'')])
       (XhrSuccess 0 (Some 0) ''blob:0'')))
     = [Callback 0 None (Some ''Empty image response.'')
          (request (jobs (run (ImageLoader 2 30000) [AddJob (ajaxRequest ''tile.png'')]) ! 0))]"
proof -
  let ?w = "run (ImageLoader 2 30000) [AddJob (ajaxRequest ''tile.png'')]"
  have h: "0 < length (jobs ?w)" "executing (jobs ?w ! 0)" "pending (jobs ?w ! 0) = Some Xhr"
    by (simp_all add: model_defs)
  have v: "request (jobs ?w ! 0) = True" by (simp add: model_defs)
  note c = C7_empty_response_message [OF refl h, of "''blob:0''"]
  show ?thesis by (intro conjI h(2,3) v c)
qed

subsection \<open>C8: the choice among the servers\<close>

text \<open>
  \<^bold>\<open>C8\<close>, as stated, fails: for the file name \<open>1_1_2_2_2.jpg\<close> the code reads column
  \<open>1\<close> and row \<open>1\<close> from the first two tokens and takes server \<open>3\<close>, where the
  second-to-last and third-to-last tokens (\<open>2\<close> and \<open>2\<close>) would give server \<open>0\<close>.
\<close>

theorem C8_counterexample:
  "image (start 1 False (ImageJob (multiServerRequest [''s0/'', ''s1/'', ''s2/'', ''s3/''] ''tiles/1_1_2_2_2.jpg'') 30000)) =
     Some \<lparr> img_src = Some ''s3/tiles/1_1_2_2_2.jpg'', crossOrigin = None, handlers = True \<rparr> \<and>
   claimed_multiServerSrc [''s0/'', ''s1/'', ''s2/'', ''s3/''] ''tiles/1_1_2_2_2.jpg'' = ''s0/tiles/1_1_2_2_2.jpg'' \<and>
   multiServerSrc [''s0/'', ''s1/'', ''s2/'', ''s3/''] ''tiles/1_1_2_2_2.jpg''
     \<noteq> claimed_multiServerSrc [''s0/'', ''s1/'', ''s2/'', ''s3/''] ''tiles/1_1_2_2_2.jpg''"
  by code_simp

text \<open>
  \<^bold>\<open>C8, amended.\<close> For a job on the multi-server branch, \<open>start\<close> requests the URL
  itself when \<open>labels_\<close> or \<open>predictions_\<close> occurs anywhere in it. Otherwise it takes
  the file name (what follows the last slash) up to the first backslash that is
  followed by a dot (all of it when there is none), reads the column from the first
  and the row from the second underscore-delimited token of that stem, and requests
  \<open>multiServers[k] + src\<close>, where \<open>k\<close> is \<open>0\<close> for (even, even), \<open>1\<close> for
  (even, not even), \<open>2\<close> for (not even, even) and \<open>3\<close> otherwise. A token counts as
  even when it begins, after white space and an optional sign, with a decimal
  integer that is even and below \<open>2^53\<close> in absolute value, or that is at least \<open>2^53\<close>
  and below \<open>2^1024 - 2^970\<close> in absolute value (\<open>parseInt\<close> rounds it to a double, which
  is even; from \<open>2^1024 - 2^970\<close> on it returns an infinity). Every other token, a
  missing one included, counts as not even. A URL ending in \<open>/5_7.jpg\<close> has index \<open>3\<close>.
\<close>

theorem C8_multi_server_selection:
  assumes "\<not> (loadWithSignalR j \<and> signalRHub j)" "\<not> loadWithAjax j" "loadWithMultiServers j"
  shows "image (start tid connected j) =
           Some \<lparr> img_src = Some (if sublist ''labels_'' (src j) \<or> sublist ''predictions_'' (src j)
                                   then src j
                                   else at_str (multiServers j) (endpoint_index (src j)) @ src j),
                  crossOrigin = crossOriginPolicy j, handlers = True \<rparr> \<and>
         endpoint_index (dir @ ''/5_7.jpg'') = 3"
proof -
  have "file_name (dir @ ''/5_7.jpg'') = ''5_7.jpg''"
    using file_name_append [of "''5_7.jpg''" dir] by simp
  moreover have "name_index ''5_7.jpg'' = 3" by code_simp
  ultimately have "endpoint_index (dir @ ''/5_7.jpg'') = 3" by (simp add: endpoint_index_def)
  with assms show ?thesis
    by (auto simp: start_def Let_def multiServerSrc_char)
qed

text \<open>
  The rule at three URLs: \<open>tiles/12/5_7.jpg\<close> (odd, odd); a column of \<open>2^53 + 1\<close>, which
  \<open>parseInt\<close> rounds to the even \<open>2^53\<close>; and a file name cut at a backslash and dot,
  which leaves the single token \<open>4\<close> and no row.
\<close>

theorem C8_witness:
  "\<not> (loadWithSignalR (ImageJob (multiServerRequest [''s0/'', ''s1/'', ''s2/'', ''s3/''] ''tiles/12/5_7.jpg'') 30000) \<and>
       signalRHub (ImageJob (multiServerRequest [''s0/'', ''s1/'', ''s2/'', ''s3/''] ''tiles/12/5_7.jpg'') 30000)) \<and>
   \<not> loadWithAjax (ImageJob (multiServerRequest [''s0/'', ''s1/'', ''s2/'', ''s3/''] ''tiles/12/5_7.jpg'') 30000) \<and>
   loadWithMultiServers (ImageJob (multiServerRequest [''s0/'', ''s1/'', ''s2/'', ''s3/''] ''tiles/12/5_7.jpg'') 30000) \<and>
   image (start 1 False (ImageJob (multiServerRequest [''s0/'', ''s1/'', ''s2/'', ''s3/''] ''tiles/12/5_7.jpg'') 30000)) =
     Some \<lparr> img_src = Some ''s3/tiles/12/5_7.jpg'', crossOrigin = None, handlers = True \<rparr> \<and>
   image (start 1 False (ImageJob (multiServerRequest [''s0/'', ''s1/'', ''s2/'', ''s3/'']
       ''t/9007199254740993_2.jpg'') 30000)) =
     Some \<lparr> img_src = Some ''s0/t/9007199254740993_2.jpg'', crossOrigin = None, handlers = True \<rparr> \<and>
   image (start 1 False (ImageJob (multiServerRequest [''s0/'', ''s1/'', ''s2/'', ''s3/'']
       (''t/4'' @ [CHR 0x5C] @ ''.1_6.jpg'')) 30000)) =
     Some \<lparr> img_src = Some (''s1/t/4'' @ [CHR 0x5C] @ ''.1_6.jpg''), crossOrigin = None, handlers = True \<rparr>"
proof -
  let ?S = "[''s0/'', ''s1/'', ''s2/'', ''s3/'']"
  let ?j = "\<lambda>s. ImageJob (multiServerRequest ?S s) 30000"
  have h: "\<not> (loadWithSignalR (?j s) \<and> signalRHub (?j s))" "\<not> loadWithAjax (?j s)"
    "loadWithMultiServers (?j s)" for s
    by (simp_all add: ImageJob_def multiServerRequest_def directRequest_def)
  have v: "src (?j s) = s" "multiServers (?j s) = ?S" "crossOriginPolicy (?j s) = None" for s
    by (simp_all add: ImageJob_def multiServerRequest_def directRequest_def)
  have n1: "\<not> sublist ''labels_'' ''tiles/12/5_7.jpg''" "\<not> sublist ''predictions_'' ''tiles/12/5_7.jpg''"
    by code_simp+
  have n2: "\<not> sublist ''labels_'' ''t/9007199254740993_2.jpg''"
    "\<not> sublist ''predictions_'' ''t/9007199254740993_2.jpg''"
    by code_simp+
  have n3: "\<not> sublist ''labels_'' (''t/4'' @ [CHR 0x5C] @ ''.1_6.jpg'')"
    "\<not> sublist ''predictions_'' (''t/4'' @ [CHR 0x5C] @ ''.1_6.jpg'')"
    by code_simp+
  have k2: "endpoint_index ''t/9007199254740993_2.jpg'' = 0" by code_simp
  have k3: "endpoint_index (''t/4'' @ [CHR 0x5C] @ ''.1_6.jpg'') = 1" by code_simp
  note c1 = C8_multi_server_selection [OF h [of "''tiles/12/5_7.jpg''"], of 1 False "''tiles/12''"]
  note c2 = C8_multi_server_selection [OF h [of "''t/9007199254740993_2.jpg''"], of 1 False "[]",
      THEN conjunct1]
  note c3 = C8_multi_server_selection [OF h [of "''t/4'' @ [CHR 0x5C] @ ''.1_6.jpg''"], of 1 False "[]",
      THEN conjunct1]
  have a1: "image (start 1 False (?j ''tiles/12/5_7.jpg'')) =
      Some \<lparr> img_src = Some ''s3/tiles/12/5_7.jpg'', crossOrigin = None, handlers = True \<rparr>"
    using c1 by (simp add: v n1 at_str_def)
  have a2: "image (start 1 False (?j ''t/9007199254740993_2.jpg'')) =
      Some \<lparr> img_src = Some ''s0/t/9007199254740993_2.jpg'', crossOrigin = None, handlers = True \<rparr>"
    unfolding c2 v by (simp add: n2 k2 at_str_def)
  have a3: "image (start 1 False (?j (''t/4'' @ [CHR 0x5C] @ ''.1_6.jpg''))) =
      Some \<lparr> img_src = Some (''s1/t/4'' @ [CHR 0x5C] @ ''.1_6.jpg''), crossOrigin = None, handlers = True \<rparr>"
    using c3 n3 k3 by (simp add: v at_str_def)
  show ?thesis by (intro conjI h a1 a2 a3)
qed

subsection \<open>C9: a failed connection of the hub\<close>

text \<open>
  \<^bold>\<open>C9.\<close> The code does not do what the claim says. When \<open>hub.start()\<close> fails for an
  executing SignalR job, the handler writes to the console and nothing else: no
  callback is made, the job goes on executing, and \<open>jobsInProgress\<close> keeps counting
  it (until its timer fires).
\<close>

theorem C9_connect_failure_only_logged:
  assumes "w = run (ImageLoader limit t) es" "r < length (jobs w)" "executing (jobs w ! r)"
    "pending (jobs w ! r) = Some HubStart"
  shows "trace (step w (HubStartFail r)) = trace w @ [ConsoleError ''SignalR could not Connect!''] \<and>
         callbacks_of r (trace (step w (HubStartFail r))) = [] \<and>
         executing (jobs (step w (HubStartFail r)) ! r) \<and>
         jobsInProgress (step w (HubStartFail r)) = jobsInProgress w"
proof -
  have inv: "Inv w" using assms Inv_reachable by simp
  have cb0: "callbacks_of r (trace w) = []"
    using inv assms(2,3) phases_exclusive by (auto simp: Inv_def job_inv_def)
  have "executing ((jobs w ! r)\<lparr> pending := None \<rparr>)"
    using assms(3) by (auto simp: executing_def split: option.splits)
  with cb0 assms(2) show ?thesis
    unfolding step_HubStartFail_eq [OF assms(2,4)] by (simp add: quiet_def)
qed

theorem C9_witness:
  "executing (jobs (run (ImageLoader 2 30000) [AddJob (signalRRequest ''tile.png'')]) ! 0) \<and>
   pending (jobs (run (ImageLoader 2 30000) [AddJob (signalRRequest ''tile.png'')]) ! 0) = Some HubStart \<and>
   trace (run (ImageLoader 2 30000) [AddJob (signalRRequest ''tile.png''), HubStartFail 0])
     = [TileLoadStart 0 ''tile.png'', ConsoleError ''SignalR could not Connect!''] \<and>
   callbacks_of 0 (trace (step (run (ImageLoader 2 30000) [AddJob (signalRRequest ''tile.png'')])
       (HubStartFail 0))) = [] \<and>
   executing (jobs (step (run (ImageLoader 2 30000) [AddJob (signalRRequest ''tile.png'')])
       (HubStartFail 0)) ! 0) \<and>
   jobsInProgress (step (run (ImageLoader 2 30000) [AddJob (signalRRequest ''tile.png'')]) (HubStartFail 0))
     = jobsInProgress (run (ImageLoader 2 30000) [AddJob (signalRRequest ''tile.png'')])"
proof -
  let ?w = "run (ImageLoader 2 30000) [AddJob (signalRRequest ''tile.png'')]"
  have h: "0 < length (jobs ?w)" "executing (jobs ?w ! 0)" "pending (jobs ?w ! 0) = Some HubStart"
    by (simp_all add: model_defs)
  have t: "trace (run (ImageLoader 2 30000) [AddJob (signalRRequest ''tile.png''), HubStartFail 0])
     = [TileLoadStart 0 ''tile.png'', ConsoleError ''SignalR could not Connect!'']"
    by (simp add: model_defs)
  note c = C9_connect_failure_only_logged [OF refl h]
  show ?thesis
    by (intro conjI h(2,3) t c [THEN conjunct2, THEN conjunct1]
          c [THEN conjunct2, THEN conjunct2, THEN conjunct1]
          c [THEN conjunct2, THEN conjunct2, THEN conjunct2])
qed

subsection \<open>C10: cleared jobs are never called back\<close>

text \<open>
  \<^bold>\<open>C10.\<close> A job that was in the queue of a reachable loader when \<open>clear\<close> ran is
  never called back afterwards, whatever happens next: it stays a created job,
  outside the queue, with no callback in the trace.
\<close>

theorem C10_cleared_job_never_called_back:
  assumes "w = run (ImageLoader limit t) es" "r \<in> set (jobQueue w)"
  shows "callbacks_of r (trace (run (clear w) es')) = [] \<and>
         created (jobs (run (clear w) es') ! r) \<and>
         r \<notin> set (jobQueue (run (clear w) es'))"
proof -
  have inv: "Inv w" using assms Inv_reachable by simp
  have "Inv (clear w)" "dropped (clear w) r"
    using inv assms(2) by (simp_all add: Inv_clear clear_drops)
  then have "Inv (run (clear w) es')" "dropped (run (clear w) es') r"
    using dropped_run by blast+
  then show ?thesis
    using dropped_quiet_forever by (simp add: dropped_def)
qed

theorem C10_witness:
  "1 \<in> set (jobQueue (run (ImageLoader 1 30000)
       [AddJob (directRequest ''a.png''), AddJob (directRequest ''b.png'')])) \<and>
   callbacks_of 1 (trace (run (clear (run (ImageLoader 1 30000)
       [AddJob (directRequest ''a.png''), AddJob (directRequest ''b.png'')]))
       [ImageLoad 0, TimerFires 1, ImageLoad 1])) = [] \<and>
   created (jobs (run (clear (run (ImageLoader 1 30000)
       [AddJob (directRequest ''a.png''), AddJob (directRequest ''b.png'')]))
       [ImageLoad 0, TimerFires 1, ImageLoad 1]) ! 1) \<and>
   trace (run (clear (run (ImageLoader 1 30000)
       [AddJob (directRequest ''a.png''), AddJob (directRequest ''b.png'')]))
       [ImageLoad 0, TimerFires 1, ImageLoad 1])
     = [TileLoadStart 0 ''a.png'', AbortHook 1,
        Callback 0 (Some \<lparr> img_src = Some ''a.png'', crossOrigin = None, handlers = False \<rparr>) None False]"
proof -
  let ?w = "run (ImageLoader 1 30000) [AddJob (directRequest ''a.png''), AddJob (directRequest ''b.png'')]"
  have h: "1 \<in> set (jobQueue ?w)" by (simp add: model_defs)
  have t: "trace (run (clear ?w) [ImageLoad 0, TimerFires 1, ImageLoad 1])
     = [TileLoadStart 0 ''a.png'', AbortHook 1,
        Callback 0 (Some \<lparr> img_src = Some ''a.png'', crossOrigin = None, handlers = False \<rparr>) None False]"
    by (simp add: model_defs)
  note c = C10_cleared_job_never_called_back [OF refl h, of "[ImageLoad 0, TimerFires 1, ImageLoad 1]"]
  show ?thesis by (intro conjI h c [THEN conjunct1] c [THEN conjunct2, THEN conjunct1] t)
qed

end
